theory Spec2Isabelle
  imports Main
begin

section \<open>The payload rewriter (\<open>modify_xml\<close>)\<close>

text \<open>
  Python \<open>bytes\<close> are sequences of 8-bit values; \<open>string\<close> is a list of 8-bit
  characters, so a chunk is a \<open>string\<close> and \<open>len\<close> is \<open>length\<close>.
\<close>

type_synonym bytes = string

definition MAX_DATA_IMG :: nat where
  "MAX_DATA_IMG = 20000000"

definition MAX_DATA_XML :: nat where
  "MAX_DATA_XML = 50000"

text \<open>\<open>xs\<close> starts with \<open>sub\<close>: the comparison \<open>bytes.find\<close> makes at one offset.\<close>

fun starts_with :: "'a list \<Rightarrow> 'a list \<Rightarrow> bool" where
  "starts_with [] xs = True"
| "starts_with (p # ps) [] = False"
| "starts_with (p # ps) (x # xs) = (p = x \<and> starts_with ps xs)"

text \<open>
  \<open>data.find(sub)\<close>: the lowest index at which \<open>sub\<close> occurs in \<open>data\<close>, and \<open>-1\<close>
  when it does not occur. \<open>find_from i sub xs\<close> scans \<open>xs\<close>, whose first element has
  index \<open>i\<close> in the chunk.
\<close>

fun find_from :: "nat \<Rightarrow> 'a list \<Rightarrow> 'a list \<Rightarrow> int" where
  "find_from i sub [] = (if sub = [] then int i else - 1)"
| "find_from i sub (x # xs) =
     (if starts_with sub (x # xs) then int i else find_from (Suc i) sub xs)"

definition bytes_find :: "bytes \<Rightarrow> bytes \<Rightarrow> int" where
  "bytes_find data sub = find_from 0 sub data"

definition end_tag :: bytes where
  "end_tag = ''</print>''"

definition new_line :: bytes where
  "new_line = ''<cutmode>full</cutmode>'' @ [CHR 0x0A]"

text \<open>
  What \<open>modify_xml\<close> does besides returning: its three \<open>print\<close> calls and the search
  for the closing tag, in the order they are executed.
\<close>

datatype step =
    Print_picture
  | Print_xml_content bytes
  | Find_end_tag
  | Print_xml_modified bytes

definition modify_xml_run :: "bytes \<Rightarrow> bytes \<times> step list" where
  "modify_xml_run data =
     (if length data > MAX_DATA_XML then (data, [Print_picture])
      else
        let end_tag_pos = bytes_find data end_tag in
        if end_tag_pos = - 1 then (data, [Print_xml_content data, Find_end_tag])
        else
          let new_data = take (nat end_tag_pos) data @ new_line @ drop (nat end_tag_pos) data
          in (new_data, [Print_xml_content data, Find_end_tag, Print_xml_modified new_data]))"

text \<open>The value \<open>modify_xml\<close> returns.\<close>

definition modify_xml :: "bytes \<Rightarrow> bytes" where
  "modify_xml data = fst (modify_xml_run data)"

text \<open>The statements \<open>modify_xml\<close> executes on the way.\<close>

definition modify_xml_steps :: "bytes \<Rightarrow> step list" where
  "modify_xml_steps data = snd (modify_xml_run data)"


section \<open>The cancellation signal and the environment of a thread\<close>

text \<open>
  What a thread does to the outside world, in the order it does it. \<open>'s\<close> is the type
  of the sockets the thread owns.
\<close>

datatype 's event =
    Is_set bool
  | Wait_stop
  | Select "'s list" "'s list"
  | Recv 's nat bytes
  | Sendall 's bytes
  | Shutdown_wr 's
  | Close 's
  | Accept nat
  | Thread_start nat
  | Is_alive nat bool
  | Thread_join nat

text \<open>
  The part of the world every thread sees. \<open>stop_event\<close> is the process-wide
  \<open>threading.Event\<close>. The other fields are the schedule the run is taken against:
  \<^item> \<open>signals\<close>: for each later look of this thread at \<open>stop_event\<close>, whether a
    termination signal was handled since the look before (no entry left: no signal);
  \<^item> \<open>selects\<close>: for each later call of \<open>select\<close>, the sockets with something to
    read when it returns (none of the monitored ones: the call timed out). A run that needs
    more calls than the schedule holds is not finished within it, and its value is
    \<open>None\<close>;
  \<^item> \<open>trace\<close>: the events so far.
\<close>

record 's env =
  stop_event :: bool
  signals :: "bool list"
  selects :: "'s list list"
  trace :: "'s event list"

text \<open>\<open>stop_event.set()\<close>, the first statement of \<open>handle_exit\<close>.\<close>

definition event_set :: "('s, 'a) env_scheme \<Rightarrow> ('s, 'a) env_scheme" where
  "event_set w = w\<lparr>stop_event := True\<rparr>"

text \<open>
  Before a thread looks at the flag, the main thread may have handled a termination
  signal: then \<open>handle_exit\<close> has run \<open>stop_event.set()\<close>.
\<close>

definition deliver :: "('s, 'a) env_scheme \<Rightarrow> ('s, 'a) env_scheme" where
  "deliver w =
     (case signals w of
        [] \<Rightarrow> w
      | sg # rest \<Rightarrow> (if sg then event_set w else w)\<lparr>signals := rest\<rparr>)"

text \<open>
  \<open>stop_event.is_set()\<close>: the world after the call; the value the call returns is the
  field \<open>stop_event\<close> of that world.
\<close>

definition is_set :: "('s, 'a) env_scheme \<Rightarrow> ('s, 'a) env_scheme" where
  "is_set w = (let w' = deliver w in w'\<lparr>trace := trace w' @ [Is_set (stop_event w')]\<rparr>)"

text \<open>\<open>stop_event.wait(0.5)\<close> in \<open>socket_read\<close>; its result is not used.\<close>

definition event_wait :: "('s, 'a) env_scheme \<Rightarrow> ('s, 'a) env_scheme" where
  "event_wait w = (let w' = deliver w in w'\<lparr>trace := trace w' @ [Wait_stop]\<rparr>)"

text \<open>
  \<open>select(socket_list, [], socket_list, timeout)\<close>: the monitored sockets that are ready,
  in the order of \<open>socket_list\<close>; the empty list after a timeout.
\<close>

definition select_readable ::
  "'s list \<Rightarrow> ('s, 'a) env_scheme \<Rightarrow> ('s list \<times> ('s, 'a) env_scheme) option" where
  "select_readable socket_list w =
     (case selects w of
        [] \<Rightarrow> None
      | ready # rest \<Rightarrow>
          let readable = filter (\<lambda>s. s \<in> set ready) socket_list
          in Some (readable, w\<lparr>selects := rest, trace := trace w @ [Select socket_list readable]\<rparr>))"

text \<open>
  What \<open>socket_wait_readable\<close> returns: the list of readable sockets, or Python's
  \<open>None\<close> when the \<open>while\<close> loop ends because the flag is set and the function body
  falls off its end.
\<close>

datatype 's wait_result = Py_None | Readable "'s list"

function socket_wait_readable ::
  "'s list \<Rightarrow> ('s, 'a) env_scheme \<Rightarrow> ('s wait_result \<times> ('s, 'a) env_scheme) option" where
  "socket_wait_readable socket_list w =
     (let w1 = is_set w in
      if \<not> stop_event w1 then
        (case select_readable socket_list w1 of
           None \<Rightarrow> None
         | Some (readable, w2) \<Rightarrow>
             if readable \<noteq> [] then Some (Readable readable, w2)
             else socket_wait_readable socket_list w2)
      else Some (Py_None, w1))"
  by pat_completeness auto
termination
  by (relation "measure (\<lambda>(socket_list, w). length (selects w))")
     (auto simp: select_readable_def is_set_def deliver_def event_set_def Let_def
           split: list.splits if_splits)

declare socket_wait_readable.simps [simp del]


section \<open>A session (\<open>client_thread\<close>)\<close>

datatype leg = Client | Printer

text \<open>
  One TCP socket of a session. \<open>incoming\<close> is what the peer sends from now on, in the
  segments in which it arrives; the empty segment is the peer's FIN, after which every
  \<open>recv\<close> returns \<open>b''\<close>. When \<open>incoming\<close> is used up and no FIN came, the peer stays
  silent for ever and \<open>recv\<close> does not return. \<open>sent\<close> are the chunks written with
  \<open>sendall\<close>. Transport failures (a refused connection, a reset) are not part of this
  model.
\<close>

record sock =
  incoming :: "bytes list"
  sent :: "bytes list"
  wr_closed :: bool
  closed :: bool

record session = "leg env" +
  client_socket :: sock
  printer_socket :: sock

text \<open>The exception a run of \<open>client_thread\<close> can end with: iterating over \<open>None\<close>.\<close>

datatype error = TypeError

definition get_sock :: "leg \<Rightarrow> session \<Rightarrow> sock" where
  "get_sock sk st = (if sk = Client then client_socket st else printer_socket st)"

definition put_sock :: "leg \<Rightarrow> sock \<Rightarrow> session \<Rightarrow> session" where
  "put_sock sk s st = (if sk = Client then st\<lparr>client_socket := s\<rparr> else st\<lparr>printer_socket := s\<rparr>)"

text \<open>\<open>sock.recv(max_bytes)\<close>: at most \<open>max_bytes\<close> bytes of the next segment.\<close>

definition sock_recv :: "nat \<Rightarrow> sock \<Rightarrow> (bytes \<times> sock) option" where
  "sock_recv max_bytes s =
     (case incoming s of
        [] \<Rightarrow> None
      | d # rest \<Rightarrow>
          if d = [] then Some ([], s)
          else if length d \<le> max_bytes then Some (d, s\<lparr>incoming := rest\<rparr>)
          else Some (take max_bytes d, s\<lparr>incoming := drop max_bytes d # rest\<rparr>))"

definition recv :: "leg \<Rightarrow> nat \<Rightarrow> session \<Rightarrow> (bytes \<times> session) option" where
  "recv sk max_bytes st =
     (case sock_recv max_bytes (get_sock sk st) of
        None \<Rightarrow> None
      | Some (data, s) \<Rightarrow>
          Some (data, (put_sock sk s st)\<lparr>trace := trace st @ [Recv sk max_bytes data]\<rparr>))"

text \<open>\<open>socket_read\<close>: \<open>stop_event.wait(0.5)\<close>, then \<open>sock.recv(max_bytes)\<close>.\<close>

definition socket_read :: "leg \<Rightarrow> nat \<Rightarrow> session \<Rightarrow> (bytes \<times> session) option" where
  "socket_read sk max_bytes st = recv sk max_bytes (event_wait st)"

text \<open>\<open>socket_write\<close>: \<open>sock.sendall(data)\<close>.\<close>

definition socket_write :: "leg \<Rightarrow> bytes \<Rightarrow> session \<Rightarrow> session" where
  "socket_write sk data st =
     (put_sock sk ((get_sock sk st)\<lparr>sent := sent (get_sock sk st) @ [data]\<rparr>) st)
       \<lparr>trace := trace st @ [Sendall sk data]\<rparr>"

text \<open>\<open>close_socket.shutdown(socket.SHUT_WR)\<close>.\<close>

definition shutdown_wr :: "leg \<Rightarrow> session \<Rightarrow> session" where
  "shutdown_wr sk st =
     (put_sock sk ((get_sock sk st)\<lparr>wr_closed := True\<rparr>) st)\<lparr>trace := trace st @ [Shutdown_wr sk]\<rparr>"

text \<open>\<open>sock.close()\<close>, called by \<open>socket_close\<close> and again when a \<open>with\<close> block is left.\<close>

definition sock_close :: "leg \<Rightarrow> session \<Rightarrow> session" where
  "sock_close sk st =
     (put_sock sk ((get_sock sk st)\<lparr>closed := True\<rparr>) st)\<lparr>trace := trace st @ [Close sk]\<rparr>"

text \<open>
  The loop of \<open>socket_close\<close>: \<open>recv(1024)\<close> until it returns \<open>b''\<close>; what is read is
  dropped.
\<close>

function drain :: "leg \<Rightarrow> session \<Rightarrow> session option" where
  "drain sk st =
     (case recv sk 1024 st of
        None \<Rightarrow> None
      | Some (data, st') \<Rightarrow> if data = [] then Some st' else drain sk st')"
  by pat_completeness auto
termination
  by (relation "measure (\<lambda>(sk, st). sum_list (map (\<lambda>d. Suc (length d)) (incoming (get_sock sk st))))")
     (auto simp: recv_def sock_recv_def get_sock_def put_sock_def split: list.splits if_splits)

declare drain.simps [simp del]

definition socket_close :: "leg \<Rightarrow> session \<Rightarrow> session option" where
  "socket_close sk st =
     (case drain sk (shutdown_wr sk st) of
        None \<Rightarrow> None
      | Some st' \<Rightarrow> Some (sock_close sk st'))"

text \<open>
  The body of \<open>for sock in readable\<close> in \<open>client_thread\<close>. The result is the value of
  \<open>exit_flag\<close> after the loop: \<open>True\<close> when a read returned \<open>b''\<close> and the loop was left
  with \<open>break\<close>.
\<close>

fun for_readable :: "leg list \<Rightarrow> session \<Rightarrow> (bool \<times> session) option" where
  "for_readable [] st = Some (False, st)"
| "for_readable (sk # rest) st =
     (let max_bytes = (if sk = Client then MAX_DATA_IMG else MAX_DATA_XML) in
      case socket_read sk max_bytes st of
        None \<Rightarrow> None
      | Some (data, st1) \<Rightarrow>
          if data = [] then Some (True, st1)
          else
            let data' = modify_xml data;
                sock_dst = (if sk = Client then Printer else Client)
            in for_readable rest (socket_write sock_dst data' st1))"

text \<open>Each call of \<open>select\<close> uses up one entry of the schedule: the loops end.\<close>

lemma is_set_selects: "selects (is_set w) = selects w"
  by (simp add: is_set_def deliver_def event_set_def Let_def split: list.splits)

lemma socket_wait_readable_selects:
  "socket_wait_readable socket_list w = Some (Readable r, w') \<Longrightarrow>
   length (selects w') < length (selects w)"
proof (induction socket_list w rule: socket_wait_readable.induct)
  case (1 socket_list w)
  show ?case
  proof (cases "select_readable socket_list (is_set w)")
    case None
    with "1.prems" show ?thesis
      by (simp add: socket_wait_readable.simps[of socket_list w] Let_def split: if_splits)
  next
    case (Some p)
    obtain readable w2 where p: "p = (readable, w2)" by (cases p)
    from Some p have l: "length (selects w2) < length (selects w)"
      using is_set_selects[of w]
      by (auto simp: select_readable_def Let_def split: list.splits)
    show ?thesis
    proof (cases "readable = []")
      case True
      with "1.prems" Some p have ns: "\<not> stop_event (is_set w)"
        and r: "socket_wait_readable socket_list w2 = Some (Readable r, w')"
        by (auto simp: socket_wait_readable.simps[of socket_list w] Let_def split: if_splits)
      from "1.IH"[OF refl ns Some[unfolded p] refl] True r
      have "length (selects w') < length (selects w2)" by simp
      with l show ?thesis by simp
    next
      case False
      with "1.prems" Some p have "w' = w2"
        by (auto simp: socket_wait_readable.simps[of socket_list w] Let_def split: if_splits)
      with l show ?thesis by simp
    qed
  qed
qed

lemma for_readable_selects:
  "for_readable rs st = Some (f, st') \<Longrightarrow> selects st' = selects st"
proof (induction rs arbitrary: st)
  case Nil
  then show ?case by simp
next
  case (Cons sk rest)
  then show ?case
    by (auto simp: Let_def socket_read_def recv_def event_wait_def deliver_def event_set_def
          socket_write_def put_sock_def get_sock_def
          split: option.splits if_splits list.splits prod.splits)
qed

text \<open>
  The \<open>while\<close> loop of \<open>client_thread\<close>. \<open>exit_flag\<close> is \<open>False\<close> on entry. The loop
  ends with \<open>Inr ()\<close> when its condition is false, and with \<open>Inl TypeError\<close> when
  \<open>socket_wait_readable\<close> returned \<open>None\<close> and \<open>for sock in readable\<close> raises.
\<close>

function client_loop :: "bool \<Rightarrow> session \<Rightarrow> ((error + unit) \<times> session) option" where
  "client_loop exit_flag st =
     (let st1 = is_set st in
      if \<not> stop_event st1 \<and> \<not> exit_flag then
        (case socket_wait_readable [Client, Printer] st1 of
           None \<Rightarrow> None
         | Some (Py_None, st2) \<Rightarrow> Some (Inl TypeError, st2)
         | Some (Readable readable, st2) \<Rightarrow>
             (case for_readable readable st2 of
                None \<Rightarrow> None
              | Some (exit_flag', st3) \<Rightarrow> client_loop exit_flag' st3))
      else Some (Inr (), st1))"
  by pat_completeness auto
termination
proof (relation "measure (\<lambda>(exit_flag, st). length (selects st))", goal_cases)
  case 1
  show ?case by simp
next
  case (2 exit_flag st st1 p w st2 readable q exit_flag' st3)
  then have "length (selects st2) < length (selects st1)" "selects st3 = selects st2"
    by (auto dest: socket_wait_readable_selects for_readable_selects)
  with 2 show ?case by (auto simp: is_set_selects)
qed

declare client_loop.simps [simp del]

text \<open>
  \<open>client_thread\<close>, from the point where both sockets are connected. After the loop each
  socket goes through \<open>socket_close\<close> and is closed once more when its \<open>with\<close> block is
  left. An exception leaves both \<open>with\<close> blocks at once: the sockets are closed, and
  \<open>socket_close\<close> is not called.
\<close>

definition client_thread :: "session \<Rightarrow> ((error + unit) \<times> session) option" where
  "client_thread st =
     (case client_loop False st of
        None \<Rightarrow> None
      | Some (Inl e, st1) \<Rightarrow> Some (Inl e, sock_close Client (sock_close Printer st1))
      | Some (Inr u, st1) \<Rightarrow>
          (case socket_close Printer st1 of
             None \<Rightarrow> None
           | Some st2 \<Rightarrow>
               (case socket_close Client (sock_close Printer st2) of
                  None \<Rightarrow> None
                | Some st3 \<Rightarrow> Some (Inr (), sock_close Client st3))))"

text \<open>A fresh socket, and a session at the start of \<open>client_thread\<close>.\<close>

definition new_sock :: "bytes list \<Rightarrow> sock" where
  "new_sock inc = \<lparr>incoming = inc, sent = [], wr_closed = False, closed = False\<rparr>"

definition new_session :: "bool list \<Rightarrow> leg list list \<Rightarrow> bytes list \<Rightarrow> bytes list \<Rightarrow> session" where
  "new_session sigs sels from_client from_printer =
     \<lparr>stop_event = False, signals = sigs, selects = sels, trace = [],
      client_socket = new_sock from_client, printer_socket = new_sock from_printer\<rparr>"


section \<open>The listener (\<open>listener_thread\<close>) and \<open>handle_exit\<close>\<close>

datatype lsock = Listener

text \<open>
  The listener's state. Session threads are numbered in the order they are started.
  \<open>ends t\<close> tells how long thread \<open>t\<close> lives, counted in passes of the listener's
  clean-up: \<open>Some k\<close> when the thread has ended by the time of pass \<open>k\<close>, \<open>None\<close> when
  it never ends. \<open>prunes\<close> counts the passes made.
\<close>

record listener = "lsock env" +
  accepted :: nat
  client_thread_list :: "nat list"
  prunes :: nat
  ends :: "nat \<Rightarrow> nat option"
  listener_closed :: bool

text \<open>\<open>listener.accept()\<close>: the new connection gets the next number.\<close>

definition accept :: "listener \<Rightarrow> nat \<times> listener" where
  "accept st =
     (accepted st, st\<lparr>accepted := Suc (accepted st), trace := trace st @ [Accept (accepted st)]\<rparr>)"

definition thread_start :: "nat \<Rightarrow> listener \<Rightarrow> listener" where
  "thread_start t st = st\<lparr>trace := trace st @ [Thread_start t]\<rparr>"

definition is_alive :: "listener \<Rightarrow> nat \<Rightarrow> bool" where
  "is_alive st t = (case ends st t of None \<Rightarrow> True | Some k \<Rightarrow> prunes st < k)"

text \<open>The clean-up: \<open>[thread for thread in client_thread_list if thread.is_alive()]\<close>.\<close>

definition prune :: "listener \<Rightarrow> listener" where
  "prune st =
     st\<lparr>client_thread_list := filter (is_alive st) (client_thread_list st),
        trace := trace st @ map (\<lambda>t. Is_alive t (is_alive st t)) (client_thread_list st),
        prunes := Suc (prunes st)\<rparr>"

lemma socket_wait_readable_None_stop:
  "socket_wait_readable socket_list w = Some (Py_None, w') \<Longrightarrow> stop_event w'"
proof (induction socket_list w rule: socket_wait_readable.induct)
  case (1 socket_list w)
  show ?case
  proof (cases "stop_event (is_set w)")
    case True
    with "1.prems" show ?thesis
      by (simp add: socket_wait_readable.simps[of socket_list w] Let_def)
  next
    case False
    with "1.prems" obtain readable w2 where
      s: "select_readable socket_list (is_set w) = Some (readable, w2)"
      by (auto simp: socket_wait_readable.simps[of socket_list w] Let_def split: option.splits)
    with "1.prems" False have e: "readable = []"
      and r: "socket_wait_readable socket_list w2 = Some (Py_None, w')"
      by (auto simp: socket_wait_readable.simps[of socket_list w] Let_def split: if_splits)
    from "1.IH"[OF refl False s refl] e r show ?thesis by simp
  qed
qed

lemma is_set_stop: "stop_event w \<Longrightarrow> stop_event (is_set w)"
  by (simp add: is_set_def deliver_def event_set_def Let_def split: list.splits)

text \<open>
  The \<open>while\<close> loop of \<open>listener_thread\<close>. The value \<open>socket_wait_readable\<close> returns is
  not used: the flag is read again, and the loop is left when it is set.
\<close>

function listener_loop :: "listener \<Rightarrow> listener option" where
  "listener_loop st =
     (let st1 = is_set st in
      if \<not> stop_event st1 then
        (case socket_wait_readable [Listener] st1 of
           None \<Rightarrow> None
         | Some (readable, st2) \<Rightarrow>
             let st3 = is_set st2 in
             if stop_event st3 then Some st3
             else
               let (t, st4) = accept st3;
                   st5 = thread_start t st4;
                   st6 = st5\<lparr>client_thread_list := client_thread_list st5 @ [t]\<rparr>
               in listener_loop (prune st6))
      else Some st1)"
  by pat_completeness auto
termination
proof (relation "measure (\<lambda>st. length (selects st))", goal_cases)
  case 1
  show ?case by simp
next
  case (2 st st1 p readable st2 st3 q t st4 st5 st6)
  from 2 have s: "socket_wait_readable [Listener] (is_set st) = Some (readable, st2)"
    and ns: "\<not> stop_event (is_set st2)"
    by auto
  have "readable \<noteq> Py_None"
    using s ns socket_wait_readable_None_stop[of "[Listener]" "is_set st" st2] is_set_stop[of st2]
    by auto
  then obtain r where "readable = Readable r" by (cases readable) auto
  with s have "length (selects st2) < length (selects (is_set st))"
    by (auto dest: socket_wait_readable_selects)
  moreover from 2 have "selects (prune st6) = selects st2"
    by (auto simp: prune_def thread_start_def accept_def is_set_selects)
  ultimately show ?case by (simp add: is_set_selects)
qed

declare listener_loop.simps [simp del]

text \<open>
  \<open>for thread in client_thread_list: thread.join()\<close>. A join returns when the thread has
  ended; on a thread that never ends it does not return.
\<close>

fun join_all :: "nat list \<Rightarrow> listener \<Rightarrow> listener option" where
  "join_all [] st = Some st"
| "join_all (t # ts) st =
     (case ends st t of
        None \<Rightarrow> None
      | Some k \<Rightarrow> join_all ts (st\<lparr>trace := trace st @ [Thread_join t]\<rparr>))"

definition listener_close :: "listener \<Rightarrow> listener" where
  "listener_close st = st\<lparr>listener_closed := True, trace := trace st @ [Close Listener]\<rparr>"

text \<open>
  The listener thread from the head of its loop to its end: the loop, the joins,
  \<open>listener.close()\<close>, and the close on leaving the \<open>with\<close> block.
\<close>

definition listener_rest :: "listener \<Rightarrow> listener option" where
  "listener_rest st =
     (case listener_loop st of
        None \<Rightarrow> None
      | Some st1 \<Rightarrow>
          (case join_all (client_thread_list st1) st1 of
             None \<Rightarrow> None
           | Some st2 \<Rightarrow> Some (listener_close (listener_close st2))))"

text \<open>\<open>listener_thread\<close>, from \<open>client_thread_list = []\<close> on.\<close>

definition listener_thread :: "listener \<Rightarrow> listener option" where
  "listener_thread st = listener_rest (st\<lparr>client_thread_list := []\<rparr>)"

text \<open>
  \<open>handle_exit\<close>, run by the main thread while the listener is at the head of its loop in
  state \<open>st\<close>: \<open>stop_event.set()\<close>; \<open>listener_thread.join()\<close>, which returns when the
  listener thread has ended; \<open>sys.exit(0)\<close>. The result is the exit status of the
  process and the state the listener ended in.
\<close>

definition handle_exit :: "listener \<Rightarrow> (int \<times> listener) option" where
  "handle_exit st =
     (case listener_rest (event_set st) of
        None \<Rightarrow> None
      | Some st' \<Rightarrow> Some (0, st'))"

definition new_listener :: "bool list \<Rightarrow> lsock list list \<Rightarrow> (nat \<Rightarrow> nat option) \<Rightarrow> listener" where
  "new_listener sigs sels e =
     \<lparr>stop_event = False, signals = sigs, selects = sels, trace = [],
      accepted = 0, client_thread_list = [], prunes = 0, ends = e, listener_closed = False\<rparr>"


section \<open>Properties of the search\<close>

lemma starts_with_iff: "starts_with sub xs \<longleftrightarrow> (\<exists>ys. xs = sub @ ys)"
  by (induction sub xs rule: starts_with.induct) auto

lemma occurs_Cons:
  assumes "\<not> starts_with sub (x # xs)"
  shows "(\<exists>pre post. x # xs = pre @ sub @ post) \<longleftrightarrow> (\<exists>pre post. xs = pre @ sub @ post)"
proof
  assume "\<exists>pre post. x # xs = pre @ sub @ post"
  then obtain pre post where e: "x # xs = pre @ sub @ post" by blast
  show "\<exists>pre post. xs = pre @ sub @ post"
  proof (cases pre)
    case Nil
    with e assms show ?thesis by (auto simp: starts_with_iff)
  next
    case (Cons p ps)
    with e have "xs = ps @ sub @ post" by simp
    then show ?thesis by blast
  qed
next
  assume "\<exists>pre post. xs = pre @ sub @ post"
  then obtain pre post where "xs = pre @ sub @ post" by blast
  then have "x # xs = (x # pre) @ sub @ post" by simp
  then show "\<exists>pre post. x # xs = pre @ sub @ post" by blast
qed

lemma find_from_absent:
  "find_from i sub xs = - 1 \<longleftrightarrow> \<not> (\<exists>pre post. xs = pre @ sub @ post)"
proof (induction xs arbitrary: i)
  case Nil
  then show ?case by auto
next
  case (Cons x xs)
  show ?case
  proof (cases "starts_with sub (x # xs)")
    case True
    then obtain ys where "x # xs = [] @ sub @ ys" by (auto simp: starts_with_iff)
    then have "\<exists>pre post. x # xs = pre @ sub @ post" by blast
    with True show ?thesis by simp
  next
    case False
    with occurs_Cons[OF False] Cons.IH[of "Suc i"] show ?thesis by simp
  qed
qed

lemma find_from_first:
  "find_from i sub xs \<noteq> - 1 \<Longrightarrow>
   \<exists>pre post. xs = pre @ sub @ post \<and> find_from i sub xs = int (i + length pre)
      \<and> (\<forall>pre' post'. xs = pre' @ sub @ post' \<longrightarrow> length pre \<le> length pre')"
proof (induction xs arbitrary: i)
  case Nil
  then show ?case by (auto split: if_splits)
next
  case (Cons x xs)
  show ?case
  proof (cases "starts_with sub (x # xs)")
    case True
    then obtain ys where "x # xs = [] @ sub @ ys" by (auto simp: starts_with_iff)
    moreover from True have "find_from i sub (x # xs) = int (i + length ([]::'a list))"
      by simp
    moreover have "\<forall>pre' post'. x # xs = pre' @ sub @ post' \<longrightarrow> length ([]::'a list) \<le> length pre'"
      by simp
    ultimately have "x # xs = [] @ sub @ ys
        \<and> find_from i sub (x # xs) = int (i + length ([]::'a list))
        \<and> (\<forall>pre' post'. x # xs = pre' @ sub @ post' \<longrightarrow> length ([]::'a list) \<le> length pre')"
      by blast
    then show ?thesis by blast
  next
    case False
    with Cons.prems have "find_from (Suc i) sub xs \<noteq> - 1" by simp
    from Cons.IH[OF this] obtain pre post where
      p: "xs = pre @ sub @ post" "find_from (Suc i) sub xs = int (Suc i + length pre)"
         "\<forall>pre' post'. xs = pre' @ sub @ post' \<longrightarrow> length pre \<le> length pre'" by blast
    have m: "length (x # pre) \<le> length pre'" if e: "x # xs = pre' @ sub @ post'" for pre' post'
    proof (cases pre')
      case Nil
      with e False show ?thesis by (auto simp: starts_with_iff)
    next
      case (Cons q qs)
      with e have "xs = qs @ sub @ post'" by simp
      with p(3) have "length pre \<le> length qs" by blast
      with Cons show ?thesis by simp
    qed
    have "x # xs = (x # pre) @ sub @ post
        \<and> find_from i sub (x # xs) = int (i + length (x # pre))
        \<and> (\<forall>pre' post'. x # xs = pre' @ sub @ post' \<longrightarrow> length (x # pre) \<le> length pre')"
      using p(1,2) False m by simp
    then show ?thesis by blast
  qed
qed

lemma modify_xml_eq:
  "modify_xml data =
     (if length data > MAX_DATA_XML then data
      else if bytes_find data end_tag = - 1 then data
      else take (nat (bytes_find data end_tag)) data @ new_line
             @ drop (nat (bytes_find data end_tag)) data)"
  by (simp add: modify_xml_def modify_xml_run_def Let_def)

lemma modify_xml_steps_eq:
  "modify_xml_steps data =
     (if length data > MAX_DATA_XML then [Print_picture]
      else if bytes_find data end_tag = - 1 then [Print_xml_content data, Find_end_tag]
      else [Print_xml_content data, Find_end_tag, Print_xml_modified (modify_xml data)])"
  by (simp add: modify_xml_steps_def modify_xml_def modify_xml_run_def Let_def)

lemma modify_xml_absent:
  assumes "length data \<le> MAX_DATA_XML" and "\<not> (\<exists>pre post. data = pre @ end_tag @ post)"
  shows "modify_xml data = data"
proof -
  from assms(2) have "bytes_find data end_tag = - 1"
    unfolding bytes_find_def by (simp only: find_from_absent not_False_eq_True)
  with assms(1) show ?thesis by (simp add: modify_xml_eq)
qed

lemma modify_xml_present:
  assumes "length data \<le> MAX_DATA_XML" and "\<exists>pre post. data = pre @ end_tag @ post"
  shows "\<exists>pre post. data = pre @ end_tag @ post
           \<and> (\<forall>pre' post'. data = pre' @ end_tag @ post' \<longrightarrow> length pre \<le> length pre')
           \<and> modify_xml data = pre @ new_line @ end_tag @ post"
proof -
  from assms(2) have ne: "find_from 0 end_tag data \<noteq> - 1"
    by (simp only: find_from_absent not_not)
  from find_from_first[OF ne] obtain pre post where
    p: "data = pre @ end_tag @ post" "find_from 0 end_tag data = int (0 + length pre)"
       "\<forall>pre' post'. data = pre' @ end_tag @ post' \<longrightarrow> length pre \<le> length pre'"
    by blast
  from p(2) have pos: "bytes_find data end_tag = int (length pre)"
    by (simp add: bytes_find_def)
  have "take (length pre) data = pre" "drop (length pre) data = end_tag @ post"
    using p(1) by simp_all
  with assms(1) ne pos have "modify_xml data = pre @ new_line @ end_tag @ post"
    by (simp add: modify_xml_eq)
  with p(1,3) show ?thesis by blast
qed


section \<open>Claims about the rewriter\<close>

text \<open>
  C3. For a chunk no longer than the descriptor threshold (in particular every chunk under
  it): when the chunk contains \<open></print>\<close>, the rewriter returns the chunk with the bytes
  \<open><cutmode>full</cutmode>\<close> and a newline inserted once, immediately before the first
  occurrence of \<open></print>\<close>, every other byte unchanged and in order; when it does not
  contain \<open></print>\<close>, the rewriter returns the chunk as it is. The chunk
  \<open><print><job>1</job></print>\<close> becomes
  \<open><print><job>1</job><cutmode>full</cutmode>\n</print>\<close>.
\<close>

theorem modify_xml_inserts_before_first_end_tag:
  "(length data \<le> MAX_DATA_XML \<and> (\<exists>pre post. data = pre @ ''</print>'' @ post) \<longrightarrow>
      (\<exists>pre post. data = pre @ ''</print>'' @ post
         \<and> (\<forall>pre' post'. data = pre' @ ''</print>'' @ post' \<longrightarrow> length pre \<le> length pre')
         \<and> modify_xml data = pre @ (''<cutmode>full</cutmode>'' @ [CHR 0x0A]) @ ''</print>'' @ post))
   \<and> (length data \<le> MAX_DATA_XML \<and> \<not> (\<exists>pre post. data = pre @ ''</print>'' @ post) \<longrightarrow>
        modify_xml data = data)
   \<and> modify_xml ''<print><job>1</job></print>''
        = ''<print><job>1</job><cutmode>full</cutmode>'' @ [CHR 0x0A] @ ''</print>''"
proof (intro conjI impI)
  assume "length data \<le> MAX_DATA_XML \<and> (\<exists>pre post. data = pre @ ''</print>'' @ post)"
  then have "length data \<le> MAX_DATA_XML" "\<exists>pre post. data = pre @ end_tag @ post"
    by (simp_all add: end_tag_def)
  from modify_xml_present[OF this]
  show "\<exists>pre post. data = pre @ ''</print>'' @ post
         \<and> (\<forall>pre' post'. data = pre' @ ''</print>'' @ post' \<longrightarrow> length pre \<le> length pre')
         \<and> modify_xml data = pre @ (''<cutmode>full</cutmode>'' @ [CHR 0x0A]) @ ''</print>'' @ post"
    by (simp only: end_tag_def new_line_def)
next
  assume "length data \<le> MAX_DATA_XML \<and> \<not> (\<exists>pre post. data = pre @ ''</print>'' @ post)"
  then have "length data \<le> MAX_DATA_XML" "\<not> (\<exists>pre post. data = pre @ end_tag @ post)"
    by (simp_all add: end_tag_def)
  from modify_xml_absent[OF this] show "modify_xml data = data" .
next
  show "modify_xml ''<print><job>1</job></print>''
        = ''<print><job>1</job><cutmode>full</cutmode>'' @ [CHR 0x0A] @ ''</print>''"
    by (simp add: modify_xml_eq bytes_find_def end_tag_def new_line_def MAX_DATA_XML_def)
qed

theorem modify_xml_inserts_before_first_end_tag_witness:
  "length ''<a></print></print>'' \<le> MAX_DATA_XML
   \<and> (\<exists>pre post. ''<a></print></print>'' = pre @ ''</print>'' @ post)
   \<and> (\<exists>pre post. ''<a></print></print>'' = pre @ ''</print>'' @ post
         \<and> (\<forall>pre' post'. ''<a></print></print>'' = pre' @ ''</print>'' @ post'
               \<longrightarrow> length pre \<le> length pre')
         \<and> modify_xml ''<a></print></print>''
             = pre @ (''<cutmode>full</cutmode>'' @ [CHR 0x0A]) @ ''</print>'' @ post)
   \<and> length ''<job>1</job>'' \<le> MAX_DATA_XML
   \<and> \<not> (\<exists>pre post. ''<job>1</job>'' = pre @ ''</print>'' @ post)
   \<and> modify_xml ''<job>1</job>'' = ''<job>1</job>''"
proof -
  have l1: "length ''<a></print></print>'' \<le> MAX_DATA_XML"
    by (simp add: MAX_DATA_XML_def)
  have "''<a></print></print>'' = ''<a>'' @ ''</print>'' @ ''</print>''" by simp
  then have o1: "\<exists>pre post. ''<a></print></print>'' = pre @ ''</print>'' @ post" by blast
  have l2: "length ''<job>1</job>'' \<le> MAX_DATA_XML"
    by (simp add: MAX_DATA_XML_def)
  have "find_from 0 ''</print>'' ''<job>1</job>'' = - 1" by simp
  with find_from_absent[of 0 "''</print>''" "''<job>1</job>''"]
  have o2: "\<not> (\<exists>pre post. ''<job>1</job>'' = pre @ ''</print>'' @ post)"
    by blast
  from modify_xml_inserts_before_first_end_tag[of "''<a></print></print>''"] l1 o1
  have c1: "\<exists>pre post. ''<a></print></print>'' = pre @ ''</print>'' @ post
         \<and> (\<forall>pre' post'. ''<a></print></print>'' = pre' @ ''</print>'' @ post'
               \<longrightarrow> length pre \<le> length pre')
         \<and> modify_xml ''<a></print></print>''
             = pre @ (''<cutmode>full</cutmode>'' @ [CHR 0x0A]) @ ''</print>'' @ post"
    by blast
  from modify_xml_inserts_before_first_end_tag[of "''<job>1</job>''"] l2 o2
  have c2: "modify_xml ''<job>1</job>'' = ''<job>1</job>''"
    by blast
  from l1 o1 c1 l2 o2 c2 show ?thesis by blast
qed

text \<open>
  C4. A chunk longer than the descriptor threshold is returned as it is, and the only
  statement \<open>modify_xml\<close> executes for it is the log line \<open>Picture received.\<close>: the chunk
  is not searched for the closing tag. A chunk of 25,000,000 bytes is such a chunk. In a
  session, a chunk read from the client that is longer than the threshold is written to
  the printer unchanged.
\<close>

theorem oversized_chunk_passes_unchanged:
  "(MAX_DATA_XML < length data \<longrightarrow>
      modify_xml data = data \<and> modify_xml_steps data = [Print_picture]
      \<and> Find_end_tag \<notin> set (modify_xml_steps data))
   \<and> (length data = 25000000 \<longrightarrow>
        modify_xml data = data \<and> modify_xml_steps data = [Print_picture])
   \<and> (socket_read Client MAX_DATA_IMG st = Some (data, st1) \<and> MAX_DATA_XML < length data \<longrightarrow>
        for_readable [Client] st = Some (False, socket_write Printer data st1))"
proof (intro conjI impI)
  assume "length data = 25000000"
  then have big: "MAX_DATA_XML < length data" by (simp add: MAX_DATA_XML_def)
  from big show "modify_xml data = data" by (simp add: modify_xml_eq)
  from big show "modify_xml_steps data = [Print_picture]" by (simp add: modify_xml_steps_eq)
next
  assume a: "socket_read Client MAX_DATA_IMG st = Some (data, st1) \<and> MAX_DATA_XML < length data"
  then have "data \<noteq> []" by auto
  with a show "for_readable [Client] st = Some (False, socket_write Printer data st1)"
    by (simp add: modify_xml_eq)
qed (simp_all add: modify_xml_eq modify_xml_steps_eq)

theorem oversized_chunk_passes_unchanged_witness:
  "MAX_DATA_XML < length (replicate 25000000 (CHR ''a''))
   \<and> length (replicate 25000000 (CHR ''a'')) = 25000000
   \<and> modify_xml (replicate 25000000 (CHR ''a'')) = replicate 25000000 (CHR ''a'')
   \<and> modify_xml_steps (replicate 25000000 (CHR ''a'')) = [Print_picture]
   \<and> Find_end_tag \<notin> set (modify_xml_steps (replicate 25000000 (CHR ''a'')))
   \<and> MAX_DATA_XML < length (replicate 60000 (CHR ''a''))
   \<and> (\<exists>st1. socket_read Client MAX_DATA_IMG
                (new_session [] [] [replicate 60000 (CHR ''a'')] [])
              = Some (replicate 60000 (CHR ''a''), st1)
          \<and> for_readable [Client] (new_session [] [] [replicate 60000 (CHR ''a'')] [])
              = Some (False, socket_write Printer (replicate 60000 (CHR ''a'')) st1))"
proof -
  let ?big = "replicate 25000000 (CHR ''a'')"
  let ?d = "replicate 60000 (CHR ''a'')"
  let ?st = "new_session [] [] [?d] []"
  have b: "MAX_DATA_XML < length ?big" and l: "length ?big = 25000000"
    by (simp_all add: MAX_DATA_XML_def)
  have d: "MAX_DATA_XML < length ?d" by (simp add: MAX_DATA_XML_def)
  have "\<exists>st1. socket_read Client MAX_DATA_IMG ?st = Some (?d, st1)"
    by (simp add: socket_read_def recv_def sock_recv_def get_sock_def put_sock_def
          event_wait_def deliver_def new_session_def new_sock_def MAX_DATA_IMG_def Let_def)
  then obtain st1 where r: "socket_read Client MAX_DATA_IMG ?st = Some (?d, st1)" by blast
  from oversized_chunk_passes_unchanged[of ?big] b
  have c1: "modify_xml ?big = ?big" "modify_xml_steps ?big = [Print_picture]"
    "Find_end_tag \<notin> set (modify_xml_steps ?big)"
    by blast+
  from oversized_chunk_passes_unchanged[of ?d ?st st1] r d
  have "for_readable [Client] ?st = Some (False, socket_write Printer ?d st1)"
    by blast
  with r have "\<exists>st1. socket_read Client MAX_DATA_IMG ?st = Some (?d, st1)
      \<and> for_readable [Client] ?st = Some (False, socket_write Printer ?d st1)"
    by blast
  with b l c1 d show ?thesis by blast
qed

text \<open>
  C9. The threshold is 50000 and the test is strict. A chunk of exactly that length is
  logged and searched as a descriptor, and when it contains \<open></print>\<close> it is rewritten:
  the directive line is inserted before the first \<open></print>\<close>, which makes the result 24
  bytes longer. \<open>modify_xml\<close> treats a chunk as a picture exactly when the chunk is
  strictly longer than the threshold.
\<close>

theorem threshold_length_is_a_descriptor:
  "MAX_DATA_XML = 50000
   \<and> (length data = MAX_DATA_XML \<longrightarrow>
        Find_end_tag \<in> set (modify_xml_steps data)
        \<and> Print_picture \<notin> set (modify_xml_steps data)
        \<and> ((\<exists>pre post. data = pre @ ''</print>'' @ post) \<longrightarrow>
             modify_xml data \<noteq> data
             \<and> length (modify_xml data) = length data + 24
             \<and> (\<exists>pre post. data = pre @ ''</print>'' @ post
                  \<and> (\<forall>pre' post'. data = pre' @ ''</print>'' @ post' \<longrightarrow> length pre \<le> length pre')
                  \<and> modify_xml data
                      = pre @ (''<cutmode>full</cutmode>'' @ [CHR 0x0A]) @ ''</print>'' @ post)))
   \<and> (modify_xml_steps data = [Print_picture] \<longleftrightarrow> MAX_DATA_XML < length data)"
proof (intro conjI impI)
  show "MAX_DATA_XML = 50000" by (simp add: MAX_DATA_XML_def)
next
  assume "length data = MAX_DATA_XML"
  then show "Find_end_tag \<in> set (modify_xml_steps data)"
    by (simp add: modify_xml_steps_eq)
next
  assume "length data = MAX_DATA_XML"
  then show "Print_picture \<notin> set (modify_xml_steps data)"
    by (simp add: modify_xml_steps_eq)
next
  assume l: "length data = MAX_DATA_XML"
    and "\<exists>pre post. data = pre @ ''</print>'' @ post"
  then have "length data \<le> MAX_DATA_XML" "\<exists>pre post. data = pre @ end_tag @ post"
    by (simp_all add: end_tag_def)
  from modify_xml_present[OF this] obtain pre post where
    p: "data = pre @ end_tag @ post"
       "\<forall>pre' post'. data = pre' @ end_tag @ post' \<longrightarrow> length pre \<le> length pre'"
       "modify_xml data = pre @ new_line @ end_tag @ post"
    by blast
  from p(1,3) show len: "length (modify_xml data) = length data + 24"
    by (simp add: new_line_def)
  then show "modify_xml data \<noteq> data" by auto
  from p show "\<exists>pre post. data = pre @ ''</print>'' @ post
       \<and> (\<forall>pre' post'. data = pre' @ ''</print>'' @ post' \<longrightarrow> length pre \<le> length pre')
       \<and> modify_xml data = pre @ (''<cutmode>full</cutmode>'' @ [CHR 0x0A]) @ ''</print>'' @ post"
    unfolding end_tag_def new_line_def by blast
next
  show "modify_xml_steps data = [Print_picture] \<longleftrightarrow> MAX_DATA_XML < length data"
    by (simp add: modify_xml_steps_eq)
qed

theorem threshold_length_is_a_descriptor_witness:
  "length (replicate 49992 (CHR ''a'') @ ''</print>'') = MAX_DATA_XML
   \<and> (\<exists>pre post. replicate 49992 (CHR ''a'') @ ''</print>'' = pre @ ''</print>'' @ post)
   \<and> Find_end_tag \<in> set (modify_xml_steps (replicate 49992 (CHR ''a'') @ ''</print>''))
   \<and> modify_xml (replicate 49992 (CHR ''a'') @ ''</print>'')
        \<noteq> replicate 49992 (CHR ''a'') @ ''</print>''
   \<and> length (modify_xml (replicate 49992 (CHR ''a'') @ ''</print>'')) = 50024
   \<and> MAX_DATA_XML < length (replicate 50001 (CHR ''a''))
   \<and> modify_xml_steps (replicate 50001 (CHR ''a'')) = [Print_picture]"
proof -
  let ?d = "replicate 49992 (CHR ''a'') @ ''</print>''"
  let ?e = "replicate 50001 (CHR ''a'')"
  have l: "length ?d = MAX_DATA_XML" by (simp add: MAX_DATA_XML_def)
  have "?d = replicate 49992 (CHR ''a'') @ ''</print>'' @ []" by simp
  then have o: "\<exists>pre post. ?d = pre @ ''</print>'' @ post" by blast
  have g: "MAX_DATA_XML < length ?e" by (simp add: MAX_DATA_XML_def)
  from threshold_length_is_a_descriptor[of ?d] l o
  have c: "Find_end_tag \<in> set (modify_xml_steps ?d)" "modify_xml ?d \<noteq> ?d"
    "length (modify_xml ?d) = length ?d + 24"
    by blast+
  from c(3) have c3: "length (modify_xml ?d) = 50024" by simp
  from threshold_length_is_a_descriptor[of ?e] g
  have e: "modify_xml_steps ?e = [Print_picture]" by blast
  from l o c(1,2) c3 g e show ?thesis by blast
qed

text \<open>
  C10. The rewriter is not idempotent. The chunk \<open><print></print>\<close> is under the
  threshold and contains \<open></print>\<close>; rewriting it once inserts one directive line, and
  rewriting the result again inserts a second one before the first \<open></print>\<close>, so the
  two results differ.
\<close>

theorem modify_xml_not_idempotent:
  "(\<exists>data. length data < MAX_DATA_XML \<and> (\<exists>pre post. data = pre @ ''</print>'' @ post)
       \<and> modify_xml (modify_xml data) \<noteq> modify_xml data)
   \<and> modify_xml ''<print></print>'' = ''<print><cutmode>full</cutmode>'' @ [CHR 0x0A] @ ''</print>''
   \<and> modify_xml (modify_xml ''<print></print>'')
       = ''<print><cutmode>full</cutmode>'' @ [CHR 0x0A] @ ''<cutmode>full</cutmode>''
           @ [CHR 0x0A] @ ''</print>''"
proof -
  let ?d = "''<print></print>''"
  have l: "length ?d < MAX_DATA_XML" by (simp add: MAX_DATA_XML_def)
  have "?d = ''<print>'' @ ''</print>'' @ []" by simp
  then have o: "\<exists>pre post. ?d = pre @ ''</print>'' @ post" by blast
  have once: "modify_xml ?d = ''<print><cutmode>full</cutmode>'' @ [CHR 0x0A] @ ''</print>''"
    by (simp add: modify_xml_eq bytes_find_def end_tag_def new_line_def MAX_DATA_XML_def)
  have twice: "modify_xml (modify_xml ?d)
       = ''<print><cutmode>full</cutmode>'' @ [CHR 0x0A] @ ''<cutmode>full</cutmode>''
           @ [CHR 0x0A] @ ''</print>''"
    unfolding once
    by (simp add: modify_xml_eq bytes_find_def end_tag_def new_line_def MAX_DATA_XML_def)
  from once twice have "modify_xml (modify_xml ?d) \<noteq> modify_xml ?d" by simp
  with l o have "\<exists>data. length data < MAX_DATA_XML
       \<and> (\<exists>pre post. data = pre @ ''</print>'' @ post)
       \<and> modify_xml (modify_xml data) \<noteq> modify_xml data"
    by blast
  with once twice show ?thesis by blast
qed


section \<open>Facts about sessions\<close>

lemmas env_defs = is_set_def event_wait_def deliver_def event_set_def select_readable_def
lemmas sock_defs = get_sock_def put_sock_def sock_recv_def recv_def socket_read_def
  socket_write_def shutdown_wr_def sock_close_def

lemma get_put_sock: "get_sock sk (put_sock sk s st) = s"
  by (simp add: get_sock_def put_sock_def)

lemma put_put_sock: "put_sock sk s (put_sock sk s' st) = put_sock sk s st"
  by (simp add: put_sock_def)

lemma put_get_sock: "put_sock sk (get_sock sk st) st = st"
  by (simp add: get_sock_def put_sock_def)

lemma get_sock_trace_update: "get_sock sk (st\<lparr>trace := t\<rparr>) = get_sock sk st"
  by (simp add: get_sock_def)

lemma put_sock_trace_update: "put_sock sk s (st\<lparr>trace := t\<rparr>) = (put_sock sk s st)\<lparr>trace := t\<rparr>"
  by (simp add: put_sock_def)

lemma trace_put_sock: "trace (put_sock sk s st) = trace st"
  by (simp add: put_sock_def)

lemmas sock_algebra = get_put_sock put_put_sock put_get_sock get_sock_trace_update
  put_sock_trace_update trace_put_sock

text \<open>What one \<open>recv\<close> does to the session.\<close>

lemma recv_Some:
  assumes "recv sk n st = Some (data, st1)"
  shows "\<exists>inc. st1 = (put_sock sk ((get_sock sk st)\<lparr>incoming := inc\<rparr>) st)
                        \<lparr>trace := trace st @ [Recv sk n data]\<rparr>
           \<and> ([] \<in> set (incoming (get_sock sk st)) \<longrightarrow> [] \<in> set inc)
           \<and> (0 < n \<longrightarrow> length data \<le> n)"
proof -
  let ?s = "get_sock sk st"
  from assms obtain d rest where i: "incoming ?s = d # rest"
    by (auto simp: recv_def sock_recv_def split: list.splits)
  show ?thesis
  proof (cases "d = []")
    case True
    with assms i have "data = []" "st1 = (put_sock sk ?s st)\<lparr>trace := trace st @ [Recv sk n data]\<rparr>"
      by (auto simp: recv_def sock_recv_def)
    then have e: "st1 = (put_sock sk (?s\<lparr>incoming := incoming ?s\<rparr>) st)
                        \<lparr>trace := trace st @ [Recv sk n data]\<rparr>"
      by simp
    from \<open>data = []\<close> have l: "0 < n \<longrightarrow> length data \<le> n" by simp
    show ?thesis by (rule exI[of _ "incoming ?s"]) (use e l in blast)
  next
    case False
    show ?thesis
    proof (cases "length d \<le> n")
      case True
      with False assms i have dd: "data = d" and
        e: "st1 = (put_sock sk (?s\<lparr>incoming := rest\<rparr>) st)\<lparr>trace := trace st @ [Recv sk n data]\<rparr>"
        by (auto simp: recv_def sock_recv_def)
      from i False have f: "[] \<in> set (incoming ?s) \<longrightarrow> [] \<in> set rest" by auto
      from dd True have l: "0 < n \<longrightarrow> length data \<le> n" by simp
      show ?thesis by (rule exI[of _ rest]) (use e f l in blast)
    next
      case big: False
      with False assms i have dd: "data = take n d" and
        e: "st1 = (put_sock sk (?s\<lparr>incoming := drop n d # rest\<rparr>) st)
                  \<lparr>trace := trace st @ [Recv sk n data]\<rparr>"
        by (auto simp: recv_def sock_recv_def)
      from i False have f: "[] \<in> set (incoming ?s) \<longrightarrow> [] \<in> set (drop n d # rest)" by auto
      from dd have l: "0 < n \<longrightarrow> length data \<le> n" by simp
      show ?thesis by (rule exI[of _ "drop n d # rest"]) (use e f l in blast)
    qed
  qed
qed

lemma recv_fin_returns:
  "[] \<in> set (incoming (get_sock sk st)) \<Longrightarrow> \<exists>data st1. recv sk n st = Some (data, st1)"
  by (auto simp: recv_def sock_recv_def split: list.splits)

text \<open>
  The drain loop ends when the peer's FIN is among what is still to arrive. It changes
  nothing but the socket's \<open>incoming\<close> and the trace, and every chunk it reads but the
  last is non-empty.
\<close>

lemma drain_fin:
  "[] \<in> set (incoming (get_sock sk st)) \<Longrightarrow>
   \<exists>ds inc. drain sk st
       = Some ((put_sock sk ((get_sock sk st)\<lparr>incoming := inc\<rparr>) st)
                 \<lparr>trace := trace st @ map (Recv sk 1024) ds @ [Recv sk 1024 []]\<rparr>)
     \<and> [] \<notin> set ds"
proof (induction sk st rule: drain.induct)
  case (1 sk st)
  from recv_fin_returns[OF "1.prems"] obtain data st1 where
    r: "recv sk 1024 st = Some (data, st1)" by blast
  from recv_Some[OF r] "1.prems" obtain inc where
    st1: "st1 = (put_sock sk ((get_sock sk st)\<lparr>incoming := inc\<rparr>) st)
                  \<lparr>trace := trace st @ [Recv sk 1024 data]\<rparr>"
    and fin: "[] \<in> set inc"
    by blast
  show ?case
  proof (cases "data = []")
    case True
    with r st1 have e: "drain sk st
       = Some ((put_sock sk ((get_sock sk st)\<lparr>incoming := inc\<rparr>) st)
                 \<lparr>trace := trace st @ map (Recv sk 1024) [] @ [Recv sk 1024 []]\<rparr>)"
      by (simp add: drain.simps[of sk st])
    have n: "[] \<notin> set ([]::bytes list)" by simp
    show ?thesis by (rule exI[of _ "[]"], rule exI[of _ inc]) (use e n in blast)
  next
    case False
    from st1 fin have "[] \<in> set (incoming (get_sock sk st1))"
      by (simp add: sock_algebra)
    from "1.IH"[OF r refl False this] obtain ds inc' where
      d: "drain sk st1
           = Some ((put_sock sk ((get_sock sk st1)\<lparr>incoming := inc'\<rparr>) st1)
                 \<lparr>trace := trace st1 @ map (Recv sk 1024) ds @ [Recv sk 1024 []]\<rparr>)"
      and nd: "[] \<notin> set ds"
      by blast
    have "(put_sock sk ((get_sock sk st1)\<lparr>incoming := inc'\<rparr>) st1)
                 \<lparr>trace := trace st1 @ map (Recv sk 1024) ds @ [Recv sk 1024 []]\<rparr>
        = (put_sock sk ((get_sock sk st)\<lparr>incoming := inc'\<rparr>) st)
                 \<lparr>trace := trace st @ map (Recv sk 1024) (data # ds) @ [Recv sk 1024 []]\<rparr>"
      by (simp add: st1 sock_algebra)
    with d r False have e: "drain sk st
       = Some ((put_sock sk ((get_sock sk st)\<lparr>incoming := inc'\<rparr>) st)
                 \<lparr>trace := trace st @ map (Recv sk 1024) (data # ds) @ [Recv sk 1024 []]\<rparr>)"
      by (simp add: drain.simps[of sk st])
    from nd False have n: "[] \<notin> set (data # ds)" by auto
    show ?thesis by (rule exI[of _ "data # ds"], rule exI[of _ inc']) (use e n in blast)
  qed
qed

lemma socket_close_fin:
  assumes "[] \<in> set (incoming (get_sock sk st))"
  shows "\<exists>ds inc. socket_close sk st
       = Some ((put_sock sk ((get_sock sk st)\<lparr>wr_closed := True, incoming := inc, closed := True\<rparr>) st)
                 \<lparr>trace := trace st @ [Shutdown_wr sk] @ map (Recv sk 1024) ds
                             @ [Recv sk 1024 [], Close sk]\<rparr>)
     \<and> [] \<notin> set ds"
proof -
  let ?st0 = "shutdown_wr sk st"
  from assms have "[] \<in> set (incoming (get_sock sk ?st0))"
    by (simp add: shutdown_wr_def sock_algebra)
  from drain_fin[OF this] obtain ds inc where
    d: "drain sk ?st0
       = Some ((put_sock sk ((get_sock sk ?st0)\<lparr>incoming := inc\<rparr>) ?st0)
                 \<lparr>trace := trace ?st0 @ map (Recv sk 1024) ds @ [Recv sk 1024 []]\<rparr>)"
    and nd: "[] \<notin> set ds"
    by blast
  have "sock_close sk ((put_sock sk ((get_sock sk ?st0)\<lparr>incoming := inc\<rparr>) ?st0)
                 \<lparr>trace := trace ?st0 @ map (Recv sk 1024) ds @ [Recv sk 1024 []]\<rparr>)
      = (put_sock sk ((get_sock sk st)\<lparr>wr_closed := True, incoming := inc, closed := True\<rparr>) st)
                 \<lparr>trace := trace st @ [Shutdown_wr sk] @ map (Recv sk 1024) ds
                             @ [Recv sk 1024 [], Close sk]\<rparr>"
    by (simp add: shutdown_wr_def sock_close_def sock_algebra)
  with d have "socket_close sk st
       = Some ((put_sock sk ((get_sock sk st)\<lparr>wr_closed := True, incoming := inc, closed := True\<rparr>) st)
                 \<lparr>trace := trace st @ [Shutdown_wr sk] @ map (Recv sk 1024) ds
                             @ [Recv sk 1024 [], Close sk]\<rparr>)"
    by (simp add: socket_close_def)
  then show ?thesis by (rule_tac x = ds in exI, rule_tac x = inc in exI) (use nd in blast)
qed


text \<open>What the steps of the forwarding loop do to the trace, the flag and the sockets.\<close>

lemma is_set_trace: "trace (is_set w) = trace w @ [Is_set (stop_event (is_set w))]"
  by (simp add: env_defs Let_def split: list.splits)

lemma is_set_sockets:
  "client_socket (is_set st) = client_socket st" "printer_socket (is_set st) = printer_socket st"
  by (simp_all add: env_defs Let_def split: list.splits)

lemma select_readable_Some:
  assumes "select_readable sl w = Some (rd, w')"
  shows "trace w' = trace w @ [Select sl rd]" and "stop_event w' = stop_event w"
  using assms by (auto simp: select_readable_def Let_def split: list.splits)

lemma select_readable_sockets:
  assumes "select_readable sl st = Some (rd, st')"
  shows "client_socket st' = client_socket st" and "printer_socket st' = printer_socket st"
  using assms by (auto simp: select_readable_def Let_def split: list.splits)

lemma event_wait_facts:
  "trace (event_wait w) = trace w @ [Wait_stop]"
  "stop_event w \<Longrightarrow> stop_event (event_wait w)"
  by (simp_all add: env_defs Let_def split: list.splits)

lemma event_wait_sockets: "get_sock k (event_wait st) = get_sock k st"
  by (simp add: env_defs get_sock_def Let_def split: list.splits)

lemma recv_stop: "recv sk n st = Some (data, st1) \<Longrightarrow> stop_event st1 = stop_event st"
  by (auto simp: recv_def put_sock_def split: option.splits if_splits)

lemma recv_other:
  "recv sk n st = Some (data, st1) \<Longrightarrow> k \<noteq> sk \<Longrightarrow> get_sock k st1 = get_sock k st"
  by (cases k; cases sk) (auto simp: recv_def put_sock_def get_sock_def split: option.splits)

lemma socket_read_Some:
  assumes "socket_read sk n st = Some (data, st1)"
  shows "trace st1 = trace st @ [Wait_stop, Recv sk n data]"
    and "0 < n \<Longrightarrow> length data \<le> n"
    and "stop_event st \<Longrightarrow> stop_event st1"
    and "[] \<in> set (incoming (get_sock k st)) \<Longrightarrow> [] \<in> set (incoming (get_sock k st1))"
proof -
  from assms have r: "recv sk n (event_wait st) = Some (data, st1)"
    by (simp add: socket_read_def)
  from recv_Some[OF r] obtain inc where
    e: "st1 = (put_sock sk ((get_sock sk (event_wait st))\<lparr>incoming := inc\<rparr>) (event_wait st))
                \<lparr>trace := trace (event_wait st) @ [Recv sk n data]\<rparr>"
    and f: "[] \<in> set (incoming (get_sock sk (event_wait st))) \<longrightarrow> [] \<in> set inc"
    and l: "0 < n \<longrightarrow> length data \<le> n"
    by blast
  from e show "trace st1 = trace st @ [Wait_stop, Recv sk n data]"
    by (simp add: event_wait_facts)
  from l show "0 < n \<Longrightarrow> length data \<le> n" by simp
  from recv_stop[OF r] show "stop_event st \<Longrightarrow> stop_event st1"
    by (simp add: event_wait_facts)
  show "[] \<in> set (incoming (get_sock k st)) \<Longrightarrow> [] \<in> set (incoming (get_sock k st1))"
  proof (cases "k = sk")
    case True
    assume "[] \<in> set (incoming (get_sock k st))"
    with True f have "[] \<in> set inc" by (simp add: event_wait_sockets)
    with True e show ?thesis by (simp add: sock_algebra)
  next
    case False
    assume "[] \<in> set (incoming (get_sock k st))"
    with recv_other[OF r False] show ?thesis by (simp add: event_wait_sockets)
  qed
qed

lemma socket_write_facts:
  "trace (socket_write sk d st) = trace st @ [Sendall sk d]"
  "stop_event (socket_write sk d st) = stop_event st"
  "incoming (get_sock k (socket_write sk d st)) = incoming (get_sock k st)"
  by (cases k; cases sk; simp add: socket_write_def put_sock_def get_sock_def)+

text \<open>Invariants of the loops: a property kept by every step is kept by the loop.\<close>

lemma socket_wait_readable_invariant:
  assumes "socket_wait_readable sl w = Some (r, w')" and "P w"
    and "\<And>v. P v \<Longrightarrow> P (is_set v)"
    and "\<And>v rd v'. P v \<Longrightarrow> select_readable sl v = Some (rd, v') \<Longrightarrow> P v'"
  shows "P w'"
  using assms
proof (induction sl w rule: socket_wait_readable.induct)
  case (1 sl w)
  from "1.prems"(2,3) have p1: "P (is_set w)" by blast
  show ?case
  proof (cases "stop_event (is_set w)")
    case True
    with "1.prems"(1) have "w' = is_set w"
      by (simp add: socket_wait_readable.simps[of sl w] Let_def)
    with p1 show ?thesis by simp
  next
    case False
    with "1.prems"(1) obtain rd w2 where
      s: "select_readable sl (is_set w) = Some (rd, w2)"
      by (auto simp: socket_wait_readable.simps[of sl w] Let_def split: option.splits)
    from "1.prems"(4)[OF p1 s] have p2: "P w2" .
    show ?thesis
    proof (cases "rd = []")
      case True
      with "1.prems"(1) False s have r: "socket_wait_readable sl w2 = Some (r, w')"
        by (simp add: socket_wait_readable.simps[of sl w] Let_def)
      from True have nn: "\<not> rd \<noteq> []" by simp
      show ?thesis
        by (rule "1.IH"[OF refl False s refl nn r p2]) (use "1.prems"(3,4) in blast)+
    next
      case ne: False
      with "1.prems"(1) False s have "w' = w2"
        by (simp add: socket_wait_readable.simps[of sl w] Let_def)
      with p2 show ?thesis by simp
    qed
  qed
qed

lemma for_readable_invariant:
  assumes "for_readable rs st = Some (f, st')" and "P st"
    and "\<And>v sk d v'. P v \<Longrightarrow>
           socket_read sk (if sk = Client then MAX_DATA_IMG else MAX_DATA_XML) v = Some (d, v')
           \<Longrightarrow> P v'"
    and "\<And>v sk d. P v \<Longrightarrow> P (socket_write sk d v)"
  shows "P st'"
  using assms
proof (induction rs arbitrary: st)
  case Nil
  then show ?case by simp
next
  case (Cons sk rest)
  let ?n = "if sk = Client then MAX_DATA_IMG else MAX_DATA_XML"
  from Cons.prems(1) obtain d st1 where
    r: "socket_read sk ?n st = Some (d, st1)"
    by (auto simp: Let_def split: option.splits)
  from Cons.prems(3)[OF Cons.prems(2) r] have p1: "P st1" .
  show ?case
  proof (cases "d = []")
    case True
    with Cons.prems(1) r have "st' = st1" by (simp add: Let_def)
    with p1 show ?thesis by simp
  next
    case False
    let ?st2 = "socket_write (if sk = Client then Printer else Client) (modify_xml d) st1"
    from False Cons.prems(1) r have c: "for_readable rest ?st2 = Some (f, st')"
      by (simp add: Let_def)
    from Cons.prems(4)[OF p1] have "P ?st2" .
    then show ?thesis
      by (rule Cons.IH[OF c]) (use Cons.prems(3,4) in blast)+
  qed
qed

lemma client_loop_invariant:
  assumes "client_loop exit_flag st = Some (r, st')" and "P st"
    and "\<And>v. P v \<Longrightarrow> P (is_set v)"
    and "\<And>v rd v'. P v \<Longrightarrow> select_readable [Client, Printer] v = Some (rd, v') \<Longrightarrow> P v'"
    and "\<And>v sk d v'. P v \<Longrightarrow>
           socket_read sk (if sk = Client then MAX_DATA_IMG else MAX_DATA_XML) v = Some (d, v')
           \<Longrightarrow> P v'"
    and "\<And>v sk d. P v \<Longrightarrow> P (socket_write sk d v)"
  shows "P st'"
  using assms
proof (induction exit_flag st rule: client_loop.induct)
  case (1 exit_flag st)
  from "1.prems"(2,3) have p1: "P (is_set st)" by blast
  show ?case
  proof (cases "\<not> stop_event (is_set st) \<and> \<not> exit_flag")
    case False
    with "1.prems"(1) have "st' = is_set st"
      by (auto simp: client_loop.simps[of exit_flag st] client_loop.simps[of False st] Let_def)
    with p1 show ?thesis by simp
  next
    case True
    with "1.prems"(1) obtain wr st2 where
      w: "socket_wait_readable [Client, Printer] (is_set st) = Some (wr, st2)"
      by (auto simp: client_loop.simps[of exit_flag st] client_loop.simps[of False st] Let_def split: option.splits)
    have p2: "P st2"
      by (rule socket_wait_readable_invariant[where P = P, OF w p1])
         (use "1.prems"(3,4) in blast)+
    show ?thesis
    proof (cases wr)
      case Py_None
      with "1.prems"(1) True w have "st' = st2"
        by (simp add: client_loop.simps[of exit_flag st] client_loop.simps[of False st] Let_def)
      with p2 show ?thesis by simp
    next
      case (Readable readable)
      with "1.prems"(1) True w obtain flag st3 where
        f: "for_readable readable st2 = Some (flag, st3)"
        and c: "client_loop flag st3 = Some (r, st')"
        by (auto simp: client_loop.simps[of exit_flag st] client_loop.simps[of False st] Let_def split: option.splits)
      have p3: "P st3"
        by (rule for_readable_invariant[where P = P, OF f p2])
           (use "1.prems"(5,6) in blast)+
      from w Readable have w': "socket_wait_readable [Client, Printer] (is_set st)
          = Some (Readable readable, st2)" by simp
      show ?thesis
        by (rule "1.IH"[OF refl True w' refl refl f refl c p3]) (use "1.prems"(3,4,5,6) in blast)+
    qed
  qed
qed


section \<open>Claims about sessions\<close>

lemmas run_defs = client_thread_def client_loop.simps socket_wait_readable.simps drain.simps
  socket_close_def env_defs sock_defs new_session_def new_sock_def Let_def
  MAX_DATA_XML_def MAX_DATA_IMG_def modify_xml_eq bytes_find_def end_tag_def new_line_def

text \<open>
  C1. Chunks from the printer are rewritten as well: the loop body of \<open>client_thread\<close>
  calls \<open>modify_xml\<close> on every chunk, whichever socket it came from. In the session
  below the printer sends \<open><status></print>\<close> and then closes, and the client only
  closes. The bytes written to the client are not the bytes read from the printer: the
  directive line has been inserted before \<open></print>\<close>.
\<close>

theorem printer_chunk_is_rewritten:
  "\<exists>st. client_thread (new_session [] [[Printer], [Client]] [[]] [''<status></print>'', []])
          = Some (Inr (), st)
     \<and> trace st =
         [Is_set False, Is_set False, Select [Client, Printer] [Printer], Wait_stop,
          Recv Printer 50000 ''<status></print>'',
          Sendall Client (''<status><cutmode>full</cutmode>'' @ [CHR 0x0A] @ ''</print>''),
          Is_set False, Is_set False, Select [Client, Printer] [Client], Wait_stop,
          Recv Client 20000000 [], Is_set False,
          Shutdown_wr Printer, Recv Printer 1024 [], Close Printer, Close Printer,
          Shutdown_wr Client, Recv Client 1024 [], Close Client, Close Client]
     \<and> sent (client_socket st) = [''<status><cutmode>full</cutmode>'' @ [CHR 0x0A] @ ''</print>'']"
  by (simp add: run_defs)

text \<open>
  In general, a non-empty chunk read from the printer reaches the client as
  \<open>modify_xml\<close> of it.
\<close>

lemma printer_chunk_goes_through_modify_xml:
  assumes "socket_read Printer MAX_DATA_XML st = Some (data, st1)" and "data \<noteq> []"
  shows "for_readable [Printer] st = Some (False, socket_write Client (modify_xml data) st1)"
  using assms by simp

text \<open>
  C2. A session that is waiting in \<open>socket_wait_readable\<close> when the flag becomes set
  does not reach the closing sequence. In the session below nothing is readable at the
  first \<open>select\<close>, and the flag is set before \<open>socket_wait_readable\<close> looks at it
  again: the function returns \<open>None\<close>, \<open>for sock in readable\<close> raises
  \<open>TypeError\<close>, and the thread ends with that exception. Neither socket is shut down
  for writing and neither is drained; they are closed on leaving the \<open>with\<close> blocks.
\<close>

theorem cancel_during_wait_raises:
  "\<exists>st. client_thread (new_session [False, False, True] [[]] [[]] [[]])
          = Some (Inl TypeError, st)
     \<and> trace st =
         [Is_set False, Is_set False, Select [Client, Printer] [], Is_set True,
          Close Printer, Close Client]
     \<and> \<not> wr_closed (client_socket st) \<and> \<not> wr_closed (printer_socket st)"
  by (simp add: run_defs)

text \<open>
  In general, whenever \<open>socket_wait_readable\<close> returns \<open>None\<close> in the loop, the thread
  ends with \<open>TypeError\<close> and \<open>socket_close\<close> is not called.
\<close>

lemma cancel_in_socket_wait_readable:
  assumes "\<not> stop_event (is_set st)"
    and "socket_wait_readable [Client, Printer] (is_set st) = Some (Py_None, st2)"
  shows "client_thread st = Some (Inl TypeError, sock_close Client (sock_close Printer st2))"
  using assms by (simp add: client_thread_def client_loop.simps[of False st] Let_def)

text \<open>
  C7. Every \<open>recv\<close> of the forwarding loop on the client socket asks for at most
  \<open>MAX_DATA_IMG\<close> = 20000000 bytes, every \<open>recv\<close> on the printer socket for at most
  \<open>MAX_DATA_XML\<close> = 50000 bytes, and the chunk returned is no longer than that.
\<close>

theorem read_limits_follow_direction:
  assumes "client_loop exit_flag st = Some (r, st')"
  shows "MAX_DATA_IMG = 20000000 \<and> MAX_DATA_XML = 50000
     \<and> (\<exists>tr. trace st' = trace st @ tr
          \<and> (\<forall>n d. Recv Client n d \<in> set tr \<longrightarrow> n = MAX_DATA_IMG \<and> length d \<le> MAX_DATA_IMG)
          \<and> (\<forall>n d. Recv Printer n d \<in> set tr \<longrightarrow> n = MAX_DATA_XML \<and> length d \<le> MAX_DATA_XML))"
proof -
  define Q :: "leg event list \<Rightarrow> bool" where
    "Q tr \<longleftrightarrow> (\<forall>n d. Recv Client n d \<in> set tr \<longrightarrow> n = MAX_DATA_IMG \<and> length d \<le> MAX_DATA_IMG)
          \<and> (\<forall>n d. Recv Printer n d \<in> set tr \<longrightarrow> n = MAX_DATA_XML \<and> length d \<le> MAX_DATA_XML)"
    for tr
  define P :: "session \<Rightarrow> bool" where "P v \<longleftrightarrow> (\<exists>tr. trace v = trace st @ tr \<and> Q tr)" for v
  have Q_app: "Q (a @ b)" if "Q a" "Q b" for a b
    using that unfolding Q_def by auto
  have step: "P v'" if "P v" "trace v' = trace v @ ev" "Q ev" for v v' ev
  proof -
    from that(1) obtain tr where t: "trace v = trace st @ tr" "Q tr"
      unfolding P_def by blast
    from t(1) that(2) have "trace v' = trace st @ (tr @ ev)" by simp
    moreover from t(2) that(3) have "Q (tr @ ev)" by (rule Q_app)
    ultimately show ?thesis unfolding P_def by blast
  qed
  have "Q []" unfolding Q_def by simp
  then have p0: "P st" unfolding P_def by simp
  have s1: "P (is_set v)" if "P v" for v
    using that is_set_trace[of v] by (rule step) (simp add: Q_def)
  have s2: "P v'" if "P v" "select_readable [Client, Printer] v = Some (rd, v')" for v rd v'
    using that(1) select_readable_Some(1)[OF that(2)] by (rule step) (simp add: Q_def)
  have s3: "P v'"
    if "P v" "socket_read sk (if sk = Client then MAX_DATA_IMG else MAX_DATA_XML) v = Some (d, v')"
    for v sk d v'
  proof -
    let ?n = "if sk = Client then MAX_DATA_IMG else MAX_DATA_XML"
    have "0 < ?n" by (simp add: MAX_DATA_IMG_def MAX_DATA_XML_def)
    from socket_read_Some(2)[OF that(2) this] have l: "length d \<le> ?n" .
    have "Q [Wait_stop, Recv sk ?n d]"
      using l unfolding Q_def by (cases sk) auto
    with that(1) socket_read_Some(1)[OF that(2)] show ?thesis by (rule step)
  qed
  have s4: "P (socket_write sk d v)" if "P v" for v sk d
    using that socket_write_facts(1)[of sk d v] by (rule step) (simp add: Q_def)
  have "P st'"
    by (rule client_loop_invariant[where P = P, OF assms p0]) (use s1 s2 s3 s4 in blast)+
  then have "\<exists>tr. trace st' = trace st @ tr \<and> Q tr" unfolding P_def .
  then show ?thesis
    unfolding Q_def by (simp add: MAX_DATA_IMG_def MAX_DATA_XML_def)
qed


theorem read_limits_follow_direction_witness:
  "\<exists>st'. client_loop False
            (new_session [] [[Client], [], [Printer], [Client]]
               [''<print></print>'', []] [''<ok/>'', []])
          = Some (Inr (), st')
      \<and> Recv Client 20000000 ''<print></print>'' \<in> set (trace st')
      \<and> Recv Printer 50000 ''<ok/>'' \<in> set (trace st')
      \<and> (\<exists>tr. trace st'
                = trace (new_session [] [[Client], [], [Printer], [Client]]
                           [''<print></print>'', []] [''<ok/>'', []]) @ tr
            \<and> (\<forall>n d. Recv Client n d \<in> set tr \<longrightarrow> n = MAX_DATA_IMG \<and> length d \<le> MAX_DATA_IMG)
            \<and> (\<forall>n d. Recv Printer n d \<in> set tr \<longrightarrow> n = MAX_DATA_XML \<and> length d \<le> MAX_DATA_XML))"
proof -
  let ?S = "new_session [] [[Client], [], [Printer], [Client]]
              [''<print></print>'', []] [''<ok/>'', []]"
  have "\<exists>st'. client_loop False ?S = Some (Inr (), st')
      \<and> Recv Client 20000000 ''<print></print>'' \<in> set (trace st')
      \<and> Recv Printer 50000 ''<ok/>'' \<in> set (trace st')"
    by (simp add: run_defs)
  then obtain st' where e: "client_loop False ?S = Some (Inr (), st')"
    and t: "Recv Client 20000000 ''<print></print>'' \<in> set (trace st')"
      "Recv Printer 50000 ''<ok/>'' \<in> set (trace st')"
    by blast
  from read_limits_follow_direction[OF e] t e show ?thesis by blast
qed

text \<open>
  C5. When the forwarding loop is left without an exception (after a read returned
  \<open>b''\<close> the loop is always left so) and each peer sends its FIN at some point, the
  thread ends normally, and from the end of the loop on it does exactly this: the printer
  socket is shut down for writing, read in chunks of at most 1024 bytes until a read
  returns \<open>b''\<close>, and closed; then the same for the client socket. Nothing is written
  to either socket after the loop, and both sockets end shut down for writing and closed.
\<close>

theorem orderly_close_of_both_legs:
  "client_loop True v = Some (Inr (), is_set v)
   \<and> (client_loop False st = Some (Inr (), st1)
        \<and> [] \<in> set (incoming (client_socket st)) \<and> [] \<in> set (incoming (printer_socket st))
      \<longrightarrow> (\<exists>st' dp dc.
             client_thread st = Some (Inr (), st')
           \<and> trace st' = trace st1
               @ [Shutdown_wr Printer] @ map (Recv Printer 1024) dp
               @ [Recv Printer 1024 [], Close Printer, Close Printer]
               @ [Shutdown_wr Client] @ map (Recv Client 1024) dc
               @ [Recv Client 1024 [], Close Client, Close Client]
           \<and> [] \<notin> set dp \<and> [] \<notin> set dc
           \<and> sent (client_socket st') = sent (client_socket st1)
           \<and> sent (printer_socket st') = sent (printer_socket st1)
           \<and> wr_closed (printer_socket st') \<and> closed (printer_socket st')
           \<and> wr_closed (client_socket st') \<and> closed (client_socket st')))"
proof (intro conjI impI)
  show "client_loop True v = Some (Inr (), is_set v)"
    by (simp add: client_loop.simps[of True v] Let_def)
next
  assume a: "client_loop False st = Some (Inr (), st1)
        \<and> [] \<in> set (incoming (client_socket st)) \<and> [] \<in> set (incoming (printer_socket st))"
  define P :: "session \<Rightarrow> bool" where
    "P w \<longleftrightarrow> [] \<in> set (incoming (get_sock Client w)) \<and> [] \<in> set (incoming (get_sock Printer w))"
    for w
  from a have l: "client_loop False st = Some (Inr (), st1)" and p0: "P st"
    by (simp_all add: P_def get_sock_def)
  have s1: "P (is_set w)" if "P w" for w
    using that by (simp add: P_def get_sock_def is_set_sockets)
  have s2: "P w'" if "P w" "select_readable [Client, Printer] w = Some (rd, w')" for w rd w'
    using that(1) select_readable_sockets[OF that(2)] by (simp add: P_def get_sock_def)
  have s3: "P w'"
    if "P w" "socket_read sk (if sk = Client then MAX_DATA_IMG else MAX_DATA_XML) w = Some (d, w')"
    for w sk d w'
    using that(1) socket_read_Some(4)[OF that(2)] by (simp add: P_def)
  have s4: "P (socket_write sk d w)" if "P w" for w sk d
    using that by (simp add: P_def socket_write_facts)
  have "P st1"
    by (rule client_loop_invariant[where P = P, OF l p0]) (use s1 s2 s3 s4 in blast)+
  then have fp: "[] \<in> set (incoming (get_sock Printer st1))"
    and fc: "[] \<in> set (incoming (get_sock Client st1))"
    by (simp_all add: P_def)
  from socket_close_fin[OF fp] obtain dp incp where
    cp: "socket_close Printer st1
       = Some ((put_sock Printer ((get_sock Printer st1)
                  \<lparr>wr_closed := True, incoming := incp, closed := True\<rparr>) st1)
                 \<lparr>trace := trace st1 @ [Shutdown_wr Printer] @ map (Recv Printer 1024) dp
                             @ [Recv Printer 1024 [], Close Printer]\<rparr>)"
    and np: "[] \<notin> set dp"
    by blast
  define A where "A = (put_sock Printer ((get_sock Printer st1)
                  \<lparr>wr_closed := True, incoming := incp, closed := True\<rparr>) st1)
                 \<lparr>trace := trace st1 @ [Shutdown_wr Printer] @ map (Recv Printer 1024) dp
                             @ [Recv Printer 1024 [], Close Printer]\<rparr>"
  define B where "B = sock_close Printer A"
  from cp have cp': "socket_close Printer st1 = Some A" by (simp only: A_def)
  have B: "get_sock Client B = get_sock Client st1"
    "trace B = trace st1 @ [Shutdown_wr Printer] @ map (Recv Printer 1024) dp
                 @ [Recv Printer 1024 [], Close Printer, Close Printer]"
    "sent (printer_socket B) = sent (printer_socket st1)"
    "wr_closed (printer_socket B)" "closed (printer_socket B)"
    by (simp_all add: B_def A_def sock_close_def get_sock_def put_sock_def)
  from fc B(1) have "[] \<in> set (incoming (get_sock Client B))" by simp
  from socket_close_fin[OF this] obtain dc incc where
    cc: "socket_close Client B
       = Some ((put_sock Client ((get_sock Client B)
                  \<lparr>wr_closed := True, incoming := incc, closed := True\<rparr>) B)
                 \<lparr>trace := trace B @ [Shutdown_wr Client] @ map (Recv Client 1024) dc
                             @ [Recv Client 1024 [], Close Client]\<rparr>)"
    and nc: "[] \<notin> set dc"
    by blast
  define C where "C = (put_sock Client ((get_sock Client B)
                  \<lparr>wr_closed := True, incoming := incc, closed := True\<rparr>) B)
                 \<lparr>trace := trace B @ [Shutdown_wr Client] @ map (Recv Client 1024) dc
                             @ [Recv Client 1024 [], Close Client]\<rparr>"
  define D where "D = sock_close Client C"
  from cc have cc': "socket_close Client B = Some C" by (simp only: C_def)
  have ct: "client_thread st = Some (Inr (), D)"
    by (simp add: client_thread_def l cp' cc' B_def[symmetric] D_def)
  have D: "trace D = trace st1
               @ [Shutdown_wr Printer] @ map (Recv Printer 1024) dp
               @ [Recv Printer 1024 [], Close Printer, Close Printer]
               @ [Shutdown_wr Client] @ map (Recv Client 1024) dc
               @ [Recv Client 1024 [], Close Client, Close Client]"
    "sent (client_socket D) = sent (client_socket st1)"
    "sent (printer_socket D) = sent (printer_socket st1)"
    "wr_closed (printer_socket D)" "closed (printer_socket D)"
    "wr_closed (client_socket D)" "closed (client_socket D)"
    using B by (simp_all add: D_def C_def sock_close_def get_sock_def put_sock_def)
  show "\<exists>st' dp dc.
             client_thread st = Some (Inr (), st')
           \<and> trace st' = trace st1
               @ [Shutdown_wr Printer] @ map (Recv Printer 1024) dp
               @ [Recv Printer 1024 [], Close Printer, Close Printer]
               @ [Shutdown_wr Client] @ map (Recv Client 1024) dc
               @ [Recv Client 1024 [], Close Client, Close Client]
           \<and> [] \<notin> set dp \<and> [] \<notin> set dc
           \<and> sent (client_socket st') = sent (client_socket st1)
           \<and> sent (printer_socket st') = sent (printer_socket st1)
           \<and> wr_closed (printer_socket st') \<and> closed (printer_socket st')
           \<and> wr_closed (client_socket st') \<and> closed (client_socket st')"
    by (rule exI[of _ D], rule exI[of _ dp], rule exI[of _ dc]) (use ct D np nc in blast)
qed


theorem orderly_close_of_both_legs_witness:
  "[] \<in> set (incoming (client_socket (new_session [] [[Client]] [[]] [''late'', []])))
   \<and> [] \<in> set (incoming (printer_socket (new_session [] [[Client]] [[]] [''late'', []])))
   \<and> (\<exists>st1 st' dp dc.
          client_loop False (new_session [] [[Client]] [[]] [''late'', []]) = Some (Inr (), st1)
        \<and> client_thread (new_session [] [[Client]] [[]] [''late'', []]) = Some (Inr (), st')
        \<and> trace st' = trace st1
               @ [Shutdown_wr Printer] @ map (Recv Printer 1024) dp
               @ [Recv Printer 1024 [], Close Printer, Close Printer]
               @ [Shutdown_wr Client] @ map (Recv Client 1024) dc
               @ [Recv Client 1024 [], Close Client, Close Client]
        \<and> [] \<notin> set dp \<and> [] \<notin> set dc
        \<and> sent (client_socket st') = sent (client_socket st1)
        \<and> sent (printer_socket st') = sent (printer_socket st1)
        \<and> wr_closed (printer_socket st') \<and> closed (printer_socket st')
        \<and> wr_closed (client_socket st') \<and> closed (client_socket st')
        \<and> Recv Printer 1024 ''late'' \<in> set (trace st')
        \<and> sent (client_socket st') = [])"
proof -
  let ?S = "new_session [] [[Client]] [[]] [''late'', []]"
  have h: "[] \<in> set (incoming (client_socket ?S))" "[] \<in> set (incoming (printer_socket ?S))"
    by (simp_all add: new_session_def new_sock_def)
  have "\<exists>st1. client_loop False ?S = Some (Inr (), st1)"
    by (simp add: run_defs)
  then obtain st1 where l: "client_loop False ?S = Some (Inr (), st1)" by blast
  have "\<exists>st'. client_thread ?S = Some (Inr (), st')
      \<and> Recv Printer 1024 ''late'' \<in> set (trace st') \<and> sent (client_socket st') = []"
    by (simp add: run_defs)
  then obtain st2 where e: "client_thread ?S = Some (Inr (), st2)"
    "Recv Printer 1024 ''late'' \<in> set (trace st2)" "sent (client_socket st2) = []"
    by blast
  from orderly_close_of_both_legs[of ?S ?S st1] l h
  obtain st' dp dc where c: "client_thread ?S = Some (Inr (), st')"
    "trace st' = trace st1
               @ [Shutdown_wr Printer] @ map (Recv Printer 1024) dp
               @ [Recv Printer 1024 [], Close Printer, Close Printer]
               @ [Shutdown_wr Client] @ map (Recv Client 1024) dc
               @ [Recv Client 1024 [], Close Client, Close Client]"
    "[] \<notin> set dp" "[] \<notin> set dc"
    "sent (client_socket st') = sent (client_socket st1)"
    "sent (printer_socket st') = sent (printer_socket st1)"
    "wr_closed (printer_socket st')" "closed (printer_socket st')"
    "wr_closed (client_socket st')" "closed (client_socket st')"
    by blast
  from c(1) e(1) have "st2 = st'" by simp
  with e have e': "Recv Printer 1024 ''late'' \<in> set (trace st')" "sent (client_socket st') = []"
    by simp_all
  have "\<exists>st1 st' dp dc.
          client_loop False ?S = Some (Inr (), st1)
        \<and> client_thread ?S = Some (Inr (), st')
        \<and> trace st' = trace st1
               @ [Shutdown_wr Printer] @ map (Recv Printer 1024) dp
               @ [Recv Printer 1024 [], Close Printer, Close Printer]
               @ [Shutdown_wr Client] @ map (Recv Client 1024) dc
               @ [Recv Client 1024 [], Close Client, Close Client]
        \<and> [] \<notin> set dp \<and> [] \<notin> set dc
        \<and> sent (client_socket st') = sent (client_socket st1)
        \<and> sent (printer_socket st') = sent (printer_socket st1)
        \<and> wr_closed (printer_socket st') \<and> closed (printer_socket st')
        \<and> wr_closed (client_socket st') \<and> closed (client_socket st')
        \<and> Recv Printer 1024 ''late'' \<in> set (trace st')
        \<and> sent (client_socket st') = []"
    by (rule exI[of _ st1], rule exI[of _ st'], rule exI[of _ dp], rule exI[of _ dc])
       (use l c e' in blast)
  with h show ?thesis by blast
qed


section \<open>Facts about the listener\<close>

lemmas listener_defs = accept_def thread_start_def prune_def listener_close_def

text \<open>
  A property kept by every step of the listener's loop is kept by the loop. The last step
  is one pass of the loop body after the flag was found unset: accept, start the thread,
  append it to the list, clean the list up.
\<close>

lemma listener_loop_invariant:
  assumes "listener_loop st = Some st'" and "P st"
    and "\<And>v. P v \<Longrightarrow> P (is_set v)"
    and "\<And>v rd v'. P v \<Longrightarrow> select_readable [Listener] v = Some (rd, v') \<Longrightarrow> P v'"
    and "\<And>v. P v \<Longrightarrow> \<not> stop_event v \<Longrightarrow>
           P (prune ((thread_start (fst (accept v)) (snd (accept v)))
                \<lparr>client_thread_list :=
                   client_thread_list (thread_start (fst (accept v)) (snd (accept v)))
                     @ [fst (accept v)]\<rparr>))"
  shows "P st'"
  using assms
proof (induction st rule: listener_loop.induct)
  case (1 st)
  from "1.prems"(2,3) have p1: "P (is_set st)" by blast
  show ?case
  proof (cases "stop_event (is_set st)")
    case True
    with "1.prems"(1) have "st' = is_set st"
      by (simp add: listener_loop.simps[of st] Let_def)
    with p1 show ?thesis by simp
  next
    case False
    with "1.prems"(1) obtain wr st2 where
      w: "socket_wait_readable [Listener] (is_set st) = Some (wr, st2)"
      by (auto simp: listener_loop.simps[of st] Let_def split: option.splits)
    have p2: "P st2"
      by (rule socket_wait_readable_invariant[where P = P, OF w p1])
         (use "1.prems"(3,4) in blast)+
    with "1.prems"(3) have p3: "P (is_set st2)" by blast
    show ?thesis
    proof (cases "stop_event (is_set st2)")
      case True
      with "1.prems"(1) False w have "st' = is_set st2"
        by (simp add: listener_loop.simps[of st] Let_def)
      with p3 show ?thesis by simp
    next
      case ns: False
      let ?v = "is_set st2"
      let ?t = "fst (accept ?v)"
      let ?st5 = "thread_start ?t (snd (accept ?v))"
      let ?st6 = "?st5\<lparr>client_thread_list := client_thread_list ?st5 @ [?t]\<rparr>"
      from "1.prems"(1) False w ns have c: "listener_loop (prune ?st6) = Some st'"
        by (simp add: listener_loop.simps[of st] Let_def split_beta)
      from "1.prems"(5)[OF p3 ns] have p4: "P (prune ?st6)" .
      have a: "(?t, snd (accept ?v)) = accept ?v" by simp
      show ?thesis
        by (rule "1.IH"[OF refl False w refl refl ns refl a refl refl c p4])
           (use "1.prems"(3,4,5) in blast)+
    qed
  qed
qed

lemma join_all_Some:
  "join_all ts st = Some st' \<Longrightarrow>
   st' = st\<lparr>trace := trace st @ map Thread_join ts\<rparr> \<and> (\<forall>t \<in> set ts. ends st t \<noteq> None)"
proof (induction ts arbitrary: st)
  case Nil
  then show ?case by simp
next
  case (Cons t ts)
  from Cons.prems obtain k where k: "ends st t = Some k"
    and j: "join_all ts (st\<lparr>trace := trace st @ [Thread_join t]\<rparr>) = Some st'"
    by (auto split: option.splits)
  from Cons.IH[OF j] k show ?case by simp
qed

lemma join_all_ended:
  "\<forall>t \<in> set ts. ends st t \<noteq> None \<Longrightarrow>
   join_all ts st = Some (st\<lparr>trace := trace st @ map Thread_join ts\<rparr>)"
proof (induction ts arbitrary: st)
  case Nil
  then show ?case by simp
next
  case (Cons t ts)
  from Cons.prems obtain k where k: "ends st t = Some k" by auto
  from Cons.prems have "\<forall>u \<in> set ts. ends (st\<lparr>trace := trace st @ [Thread_join t]\<rparr>) u \<noteq> None"
    by simp
  from Cons.IH[OF this] k show ?case by simp
qed

text \<open>The flag is never cleared by the listener.\<close>

lemma listener_loop_stop:
  assumes "listener_loop st = Some st'"
  shows "stop_event st'"
  using assms
proof (induction st rule: listener_loop.induct)
  case (1 st)
  show ?case
  proof (cases "stop_event (is_set st)")
    case True
    with "1.prems" show ?thesis by (simp add: listener_loop.simps[of st] Let_def)
  next
    case False
    with "1.prems" obtain wr st2 where
      w: "socket_wait_readable [Listener] (is_set st) = Some (wr, st2)"
      by (auto simp: listener_loop.simps[of st] Let_def split: option.splits)
    show ?thesis
    proof (cases "stop_event (is_set st2)")
      case True
      with "1.prems" False w show ?thesis by (simp add: listener_loop.simps[of st] Let_def)
    next
      case ns: False
      let ?v = "is_set st2"
      let ?t = "fst (accept ?v)"
      let ?st5 = "thread_start ?t (snd (accept ?v))"
      let ?st6 = "?st5\<lparr>client_thread_list := client_thread_list ?st5 @ [?t]\<rparr>"
      from "1.prems" False w ns have c: "listener_loop (prune ?st6) = Some st'"
        by (simp add: listener_loop.simps[of st] Let_def split_beta)
      have a: "(?t, snd (accept ?v)) = accept ?v" by simp
      from "1.IH"[OF refl False w refl refl ns refl a refl refl c] show ?thesis .
    qed
  qed
qed


text \<open>What one pass of the loop body adds to the trace and does to the thread list.\<close>

lemma spawn_facts:
  fixes v :: listener
  defines "st6 \<equiv> (thread_start (fst (accept v)) (snd (accept v)))
                \<lparr>client_thread_list :=
                   client_thread_list (thread_start (fst (accept v)) (snd (accept v)))
                     @ [fst (accept v)]\<rparr>"
  shows "trace (prune st6) = trace v @ [Accept (accepted v), Thread_start (accepted v)]
           @ map (\<lambda>t. Is_alive t (is_alive st6 t)) (client_thread_list v @ [accepted v])"
    and "client_thread_list (prune st6)
           = filter (is_alive st6) (client_thread_list v @ [accepted v])"
    and "stop_event (prune st6) = stop_event v"
    and "ends (prune st6) = ends v"
  by (simp_all add: st6_def listener_defs)

lemma no_accept_after_stop_append:
  assumes "\<forall>n. Accept n \<notin> set (dropWhile (\<lambda>e. e \<noteq> Is_set True) a)"
    and "\<forall>n. Accept n \<notin> set b"
  shows "\<forall>n. Accept n \<notin> set (dropWhile (\<lambda>e. e \<noteq> Is_set True) (a @ b))"
proof (cases "Is_set True \<in> set a")
  case True
  then have "dropWhile (\<lambda>e. e \<noteq> Is_set True) (a @ b) = dropWhile (\<lambda>e. e \<noteq> Is_set True) a @ b"
    by (simp add: dropWhile_append1)
  with assms show ?thesis by simp
next
  case False
  then have "dropWhile (\<lambda>e. e \<noteq> Is_set True) (a @ b) = dropWhile (\<lambda>e. e \<noteq> Is_set True) b"
    by (intro dropWhile_append2) auto
  with assms(2) show ?thesis by (auto dest: set_dropWhileD)
qed

lemma listener_loop_accepts:
  assumes "listener_loop st = Some st1"
  shows "\<exists>body. trace st1 = trace st @ body
           \<and> (\<forall>n. Accept n \<notin> set (dropWhile (\<lambda>e. e \<noteq> Is_set True) body))
           \<and> (Is_set True \<in> set body \<longrightarrow> stop_event st1)"
proof -
  define P :: "listener \<Rightarrow> bool" where
    "P v \<longleftrightarrow> (\<exists>body. trace v = trace st @ body
           \<and> (\<forall>n. Accept n \<notin> set (dropWhile (\<lambda>e. e \<noteq> Is_set True) body))
           \<and> (Is_set True \<in> set body \<longrightarrow> stop_event v))" for v
  have p0: "P st" unfolding P_def by simp
  have s1: "P (is_set v)" if "P v" for v
  proof -
    from that obtain body where b: "trace v = trace st @ body"
      "\<forall>n. Accept n \<notin> set (dropWhile (\<lambda>e. e \<noteq> Is_set True) body)"
      "Is_set True \<in> set body \<longrightarrow> stop_event v"
      unfolding P_def by blast
    let ?ev = "[Is_set (stop_event (is_set v))]"
    from b(1) is_set_trace[of v] have t: "trace (is_set v) = trace st @ (body @ ?ev)" by simp
    have "\<forall>n. Accept n \<notin> set ?ev" by simp
    with b(2) have n: "\<forall>n. Accept n \<notin> set (dropWhile (\<lambda>e. e \<noteq> Is_set True) (body @ ?ev))"
      by (rule no_accept_after_stop_append)
    from b(3) is_set_stop[of v] have f: "Is_set True \<in> set (body @ ?ev) \<longrightarrow> stop_event (is_set v)"
      by auto
    show ?thesis unfolding P_def by (rule exI[of _ "body @ ?ev"]) (use t n f in blast)
  qed
  have s2: "P v'" if "P v" "select_readable [Listener] v = Some (rd, v')" for v rd v'
  proof -
    from that(1) obtain body where b: "trace v = trace st @ body"
      "\<forall>n. Accept n \<notin> set (dropWhile (\<lambda>e. e \<noteq> Is_set True) body)"
      "Is_set True \<in> set body \<longrightarrow> stop_event v"
      unfolding P_def by blast
    let ?ev = "[Select [Listener] rd]"
    from b(1) select_readable_Some(1)[OF that(2)]
    have t: "trace v' = trace st @ (body @ ?ev)" by simp
    have "\<forall>n. Accept n \<notin> set ?ev" by simp
    with b(2) have n: "\<forall>n. Accept n \<notin> set (dropWhile (\<lambda>e. e \<noteq> Is_set True) (body @ ?ev))"
      by (rule no_accept_after_stop_append)
    from b(3) select_readable_Some(2)[OF that(2)]
    have f: "Is_set True \<in> set (body @ ?ev) \<longrightarrow> stop_event v'" by auto
    show ?thesis unfolding P_def by (rule exI[of _ "body @ ?ev"]) (use t n f in blast)
  qed
  have s3: "P (prune ((thread_start (fst (accept v)) (snd (accept v)))
                \<lparr>client_thread_list :=
                   client_thread_list (thread_start (fst (accept v)) (snd (accept v)))
                     @ [fst (accept v)]\<rparr>))"
    (is "P (prune ?st6)") if "P v" "\<not> stop_event v" for v
  proof -
    from that(1) obtain body where b: "trace v = trace st @ body"
      "Is_set True \<in> set body \<longrightarrow> stop_event v"
      unfolding P_def by blast
    from b(2) that(2) have ns: "Is_set True \<notin> set body" by blast
    define st6 where "st6 = ?st6"
    define ev :: "lsock event list" where "ev = [Accept (accepted v), Thread_start (accepted v)]
           @ map (\<lambda>t. Is_alive t (is_alive st6 t)) (client_thread_list v @ [accepted v])"
    have "trace (prune st6) = trace v @ ev"
      unfolding st6_def ev_def using spawn_facts(1)[of v] by simp
    with b(1) have t: "trace (prune st6) = trace st @ (body @ ev)" by simp
    have "Is_set True \<notin> set ev" by (auto simp: ev_def)
    with ns have ns': "Is_set True \<notin> set (body @ ev)" by simp
    then have dw: "dropWhile (\<lambda>e. e \<noteq> Is_set True) (body @ ev) = []"
      by (auto simp: dropWhile_eq_Nil_conv)
    have n: "\<forall>n. Accept n \<notin> set (dropWhile (\<lambda>e. e \<noteq> Is_set True) (body @ ev))"
      by (simp only: dw list.set empty_iff not_False_eq_True simp_thms)
    from ns' have f: "Is_set True \<in> set (body @ ev) \<longrightarrow> stop_event (prune st6)" by blast
    have "P (prune st6)"
      unfolding P_def by (rule exI[of _ "body @ ev"]) (use t n f in blast)
    then show ?thesis unfolding st6_def .
  qed
  have "P st1"
    by (rule listener_loop_invariant[where P = P, OF assms p0]) (use s1 s2 s3 in blast)+
  then show ?thesis unfolding P_def .
qed

lemma listener_loop_threads:
  assumes "listener_loop st = Some st1"
  shows "\<exists>body. trace st1 = trace st @ body
           \<and> Close Listener \<notin> set body
           \<and> (\<forall>t. Thread_start t \<in> set body \<or> t \<in> set (client_thread_list st)
                 \<longrightarrow> Is_alive t False \<in> set body \<or> t \<in> set (client_thread_list st1))
           \<and> ends st1 = ends st"
proof -
  define P :: "listener \<Rightarrow> bool" where
    "P v \<longleftrightarrow> (\<exists>body. trace v = trace st @ body
           \<and> Close Listener \<notin> set body
           \<and> (\<forall>t. Thread_start t \<in> set body \<or> t \<in> set (client_thread_list st)
                 \<longrightarrow> Is_alive t False \<in> set body \<or> t \<in> set (client_thread_list v))
           \<and> ends v = ends st)" for v
  have p0: "P st" unfolding P_def by simp
  have s1: "P (is_set v)" if "P v" for v
  proof -
    from that obtain body where b: "trace v = trace st @ body"
      "Close Listener \<notin> set body"
      "\<forall>t. Thread_start t \<in> set body \<or> t \<in> set (client_thread_list st)
                 \<longrightarrow> Is_alive t False \<in> set body \<or> t \<in> set (client_thread_list v)"
      "ends v = ends st"
      unfolding P_def by blast
    let ?ev = "[Is_set (stop_event (is_set v))]"
    have k: "client_thread_list (is_set v) = client_thread_list v" "ends (is_set v) = ends v"
      by (simp_all add: env_defs Let_def split: list.splits)
    from b(1) is_set_trace[of v] have t: "trace (is_set v) = trace st @ (body @ ?ev)" by simp
    from b(2) have c: "Close Listener \<notin> set (body @ ?ev)" by simp
    from b(3) k(1) have th: "\<forall>t. Thread_start t \<in> set (body @ ?ev) \<or> t \<in> set (client_thread_list st)
          \<longrightarrow> Is_alive t False \<in> set (body @ ?ev) \<or> t \<in> set (client_thread_list (is_set v))"
      by auto
    from b(4) k(2) have e: "ends (is_set v) = ends st" by simp
    show ?thesis unfolding P_def by (rule exI[of _ "body @ ?ev"]) (use t c th e in blast)
  qed
  have s2: "P v'" if "P v" "select_readable [Listener] v = Some (rd, v')" for v rd v'
  proof -
    from that(1) obtain body where b: "trace v = trace st @ body"
      "Close Listener \<notin> set body"
      "\<forall>t. Thread_start t \<in> set body \<or> t \<in> set (client_thread_list st)
                 \<longrightarrow> Is_alive t False \<in> set body \<or> t \<in> set (client_thread_list v)"
      "ends v = ends st"
      unfolding P_def by blast
    let ?ev = "[Select [Listener] rd]"
    from that(2) have k: "client_thread_list v' = client_thread_list v" "ends v' = ends v"
      by (auto simp: select_readable_def Let_def split: list.splits)
    from b(1) select_readable_Some(1)[OF that(2)]
    have t: "trace v' = trace st @ (body @ ?ev)" by simp
    from b(2) have c: "Close Listener \<notin> set (body @ ?ev)" by simp
    from b(3) k(1) have th: "\<forall>t. Thread_start t \<in> set (body @ ?ev) \<or> t \<in> set (client_thread_list st)
          \<longrightarrow> Is_alive t False \<in> set (body @ ?ev) \<or> t \<in> set (client_thread_list v')"
      by auto
    from b(4) k(2) have e: "ends v' = ends st" by simp
    show ?thesis unfolding P_def by (rule exI[of _ "body @ ?ev"]) (use t c th e in blast)
  qed
  have s3: "P (prune ((thread_start (fst (accept v)) (snd (accept v)))
                \<lparr>client_thread_list :=
                   client_thread_list (thread_start (fst (accept v)) (snd (accept v)))
                     @ [fst (accept v)]\<rparr>))"
    (is "P (prune ?st6)") if "P v" "\<not> stop_event v" for v
  proof -
    from that(1) obtain body where b: "trace v = trace st @ body"
      "Close Listener \<notin> set body"
      "\<forall>t. Thread_start t \<in> set body \<or> t \<in> set (client_thread_list st)
                 \<longrightarrow> Is_alive t False \<in> set body \<or> t \<in> set (client_thread_list v)"
      "ends v = ends st"
      unfolding P_def by blast
    define st6 where "st6 = ?st6"
    define L where "L = client_thread_list v @ [accepted v]"
    define ev :: "lsock event list" where "ev = [Accept (accepted v), Thread_start (accepted v)]
           @ map (\<lambda>t. Is_alive t (is_alive st6 t)) L"
    have "trace (prune st6) = trace v @ ev"
      unfolding st6_def ev_def L_def using spawn_facts(1)[of v] by simp
    with b(1) have t: "trace (prune st6) = trace st @ (body @ ev)" by simp
    have li: "client_thread_list (prune st6) = filter (is_alive st6) L"
      unfolding st6_def L_def using spawn_facts(2)[of v] by simp
    have "Close Listener \<notin> set ev" by (auto simp: ev_def)
    with b(2) have c: "Close Listener \<notin> set (body @ ev)" by simp
    have cover: "Is_alive u False \<in> set ev \<or> u \<in> set (client_thread_list (prune st6))"
      if "u \<in> set L" for u
    proof (cases "is_alive st6 u")
      case True
      with that have "u \<in> set (filter (is_alive st6) L)" by simp
      with li show ?thesis by simp
    next
      case False
      from that have "(\<lambda>t. Is_alive t (is_alive st6 t)) u
          \<in> (\<lambda>t. Is_alive t (is_alive st6 t)) ` set L"
        by (rule imageI)
      with False have "Is_alive u False \<in> set (map (\<lambda>t. Is_alive t (is_alive st6 t)) L)"
        by (simp only: set_map)
      then have "Is_alive u False \<in> set ev"
        unfolding ev_def set_append Un_iff by (rule disjI2)
      then show ?thesis by (rule disjI1)
    qed
    have th: "\<forall>u. Thread_start u \<in> set (body @ ev) \<or> u \<in> set (client_thread_list st)
          \<longrightarrow> Is_alive u False \<in> set (body @ ev) \<or> u \<in> set (client_thread_list (prune st6))"
    proof (intro allI impI)
      fix u
      assume "Thread_start u \<in> set (body @ ev) \<or> u \<in> set (client_thread_list st)"
      then have "Thread_start u \<in> set body \<or> u \<in> set (client_thread_list st) \<or> u = accepted v"
        by (auto simp: ev_def)
      with b(3) have "Is_alive u False \<in> set body \<or> u \<in> set L" by (auto simp: L_def)
      with cover[of u]
      show "Is_alive u False \<in> set (body @ ev) \<or> u \<in> set (client_thread_list (prune st6))"
        by auto
    qed
    have "ends (prune st6) = ends v"
      unfolding st6_def using spawn_facts(4)[of v] by simp
    with b(4) have e: "ends (prune st6) = ends st" by simp
    have "P (prune st6)"
      unfolding P_def by (rule exI[of _ "body @ ev"]) (use t c th e in blast)
    then show ?thesis unfolding st6_def .
  qed
  have "P st1"
    by (rule listener_loop_invariant[where P = P, OF assms p0]) (use s1 s2 s3 in blast)+
  then show ?thesis unfolding P_def .
qed


section \<open>Claims about shutdown\<close>

lemma listener_rest_shape:
  assumes "listener_rest st = Some st'"
  shows "stop_event st' \<and> listener_closed st'
    \<and> (\<exists>body joined.
          trace st' = trace st @ body @ map Thread_join joined @ [Close Listener, Close Listener]
        \<and> (\<forall>n. Accept n \<notin> set (dropWhile (\<lambda>e. e \<noteq> Is_set True)
                   (body @ map Thread_join joined @ [Close Listener, Close Listener])))
        \<and> Close Listener \<notin> set body
        \<and> (\<forall>t. Thread_start t \<in> set body \<or> t \<in> set (client_thread_list st)
              \<longrightarrow> Is_alive t False \<in> set body \<or> t \<in> set joined)
        \<and> (\<forall>t \<in> set joined. ends st t \<noteq> None))"
proof -
  from assms obtain st1 st2 where l: "listener_loop st = Some st1"
    and j: "join_all (client_thread_list st1) st1 = Some st2"
    and e: "st' = listener_close (listener_close st2)"
    by (auto simp: listener_rest_def split: option.splits)
  define joined where "joined = client_thread_list st1"
  from join_all_Some[OF j] have st2: "st2 = st1\<lparr>trace := trace st1 @ map Thread_join joined\<rparr>"
    and en: "\<forall>t \<in> set joined. ends st1 t \<noteq> None"
    by (simp_all add: joined_def)
  from listener_loop_accepts[OF l] obtain body where
    b: "trace st1 = trace st @ body"
    and na: "\<forall>n. Accept n \<notin> set (dropWhile (\<lambda>e. e \<noteq> Is_set True) body)"
    by blast
  from listener_loop_threads[OF l] obtain body' where
    b': "trace st1 = trace st @ body'"
    and nc: "Close Listener \<notin> set body'"
    and th: "\<forall>t. Thread_start t \<in> set body' \<or> t \<in> set (client_thread_list st)
              \<longrightarrow> Is_alive t False \<in> set body' \<or> t \<in> set (client_thread_list st1)"
    and ee: "ends st1 = ends st"
    by blast
  from b b' have same: "body' = body" by simp
  have "\<forall>n. Accept n \<notin> set (map Thread_join joined @ [Close Listener, Close Listener])"
    by auto
  with na have na': "\<forall>n. Accept n \<notin> set (dropWhile (\<lambda>e. e \<noteq> Is_set True)
                   (body @ map Thread_join joined @ [Close Listener, Close Listener]))"
    by (rule no_accept_after_stop_append)
  from e st2 b have t: "trace st' = trace st @ body @ map Thread_join joined
      @ [Close Listener, Close Listener]"
    by (simp add: listener_close_def)
  from e st2 listener_loop_stop[OF l] have f: "stop_event st'" "listener_closed st'"
    by (simp_all add: listener_close_def)
  from th same have th': "\<forall>t. Thread_start t \<in> set body \<or> t \<in> set (client_thread_list st)
              \<longrightarrow> Is_alive t False \<in> set body \<or> t \<in> set joined"
    by (simp add: joined_def)
  from nc same have nc': "Close Listener \<notin> set body" by simp
  from en ee have en': "\<forall>t \<in> set joined. ends st t \<noteq> None" by simp
  have "\<exists>body joined.
          trace st' = trace st @ body @ map Thread_join joined @ [Close Listener, Close Listener]
        \<and> (\<forall>n. Accept n \<notin> set (dropWhile (\<lambda>e. e \<noteq> Is_set True)
                   (body @ map Thread_join joined @ [Close Listener, Close Listener])))
        \<and> Close Listener \<notin> set body
        \<and> (\<forall>t. Thread_start t \<in> set body \<or> t \<in> set (client_thread_list st)
              \<longrightarrow> Is_alive t False \<in> set body \<or> t \<in> set joined)
        \<and> (\<forall>t \<in> set joined. ends st t \<noteq> None)"
    by (rule exI[of _ body], rule exI[of _ joined]) (use t na' nc' th' en' in blast)
  with f show ?thesis by blast
qed

text \<open>What \<open>handle_exit\<close> comes to: the flag is set, so the listener leaves its loop at once.\<close>

lemma handle_exit_eq:
  "handle_exit st =
     (case join_all (client_thread_list st) (is_set (event_set st)) of
        None \<Rightarrow> None
      | Some st2 \<Rightarrow> Some (0, listener_close (listener_close st2)))"
proof -
  have s: "stop_event (is_set (event_set st))"
    by (rule is_set_stop) (simp add: event_set_def)
  then have "listener_loop (event_set st) = Some (is_set (event_set st))"
    by (simp add: listener_loop.simps[of "event_set st"] Let_def)
  moreover have "client_thread_list (is_set (event_set st)) = client_thread_list st"
    by (simp add: env_defs Let_def split: list.splits)
  ultimately show ?thesis
    by (simp add: handle_exit_def listener_rest_def split: option.splits)
qed

lemma handle_exit_state:
  "trace (is_set (event_set st)) = trace st @ [Is_set True]"
  "ends (is_set (event_set st)) = ends st"
  "stop_event (is_set (event_set st))"
  by (simp_all add: env_defs Let_def split: list.splits)


text \<open>
  C6. When the listener thread ends, the flag is set and the listening socket is closed,
  and its trace is: the events of the loop, then one join for each thread still in
  \<open>client_thread_list\<close>, then the close of the listening socket (twice). In that trace
  no \<open>accept\<close> comes after the first \<open>is_set()\<close> that returned \<open>True\<close>; the
  listening socket is not closed before the joins; and every session thread the
  listener started was either found ended by the clean-up or is joined, and a join
  returns only for a thread that has ended. \<open>handle_exit\<close>, run while the listener is
  at the head of its loop, sets the flag, waits for the listener thread (which then only
  joins the registered threads and closes its socket) and exits with status 0; it
  produces no other status, it does exit when every registered thread ends, and it does
  not exit while one of them never ends.
\<close>

theorem listener_shutdown:
  "(listener_thread st = Some st' \<longrightarrow>
      stop_event st' \<and> listener_closed st'
      \<and> (\<exists>body joined.
            trace st' = trace st @ body @ map Thread_join joined @ [Close Listener, Close Listener]
          \<and> (\<forall>n. Accept n \<notin> set (dropWhile (\<lambda>e. e \<noteq> Is_set True)
                     (body @ map Thread_join joined @ [Close Listener, Close Listener])))
          \<and> Close Listener \<notin> set body
          \<and> (\<forall>t. Thread_start t \<in> set body \<longrightarrow> Is_alive t False \<in> set body \<or> t \<in> set joined)
          \<and> (\<forall>t \<in> set joined. ends st t \<noteq> None)))
   \<and> (handle_exit ls = Some (c, ls') \<longrightarrow>
        c = 0 \<and> stop_event ls' \<and> listener_closed ls'
        \<and> trace ls' = trace ls @ [Is_set True] @ map Thread_join (client_thread_list ls)
                         @ [Close Listener, Close Listener]
        \<and> (\<forall>t \<in> set (client_thread_list ls). ends ls t \<noteq> None))
   \<and> ((\<forall>t \<in> set (client_thread_list ls). ends ls t \<noteq> None) \<longrightarrow>
        (\<exists>ls'. handle_exit ls = Some (0, ls')))
   \<and> ((\<exists>t \<in> set (client_thread_list ls). ends ls t = None) \<longrightarrow> handle_exit ls = None)"
proof (intro conjI impI)
  assume a: "listener_thread st = Some st'"
  let ?st0 = "st\<lparr>client_thread_list := []\<rparr>"
  from a have r: "listener_rest ?st0 = Some st'" by (simp add: listener_thread_def)
  from listener_rest_shape[OF r] show "stop_event st'" "listener_closed st'" by blast+
  from listener_rest_shape[OF r] obtain body joined where
    b: "trace st' = trace ?st0 @ body @ map Thread_join joined @ [Close Listener, Close Listener]"
      "\<forall>n. Accept n \<notin> set (dropWhile (\<lambda>e. e \<noteq> Is_set True)
                     (body @ map Thread_join joined @ [Close Listener, Close Listener]))"
      "Close Listener \<notin> set body"
      "\<forall>t. Thread_start t \<in> set body \<or> t \<in> set (client_thread_list ?st0)
              \<longrightarrow> Is_alive t False \<in> set body \<or> t \<in> set joined"
      "\<forall>t \<in> set joined. ends ?st0 t \<noteq> None"
    by blast
  from b(1) have t: "trace st' = trace st @ body @ map Thread_join joined
      @ [Close Listener, Close Listener]" by simp
  from b(4) have th: "\<forall>t. Thread_start t \<in> set body
      \<longrightarrow> Is_alive t False \<in> set body \<or> t \<in> set joined" by blast
  from b(5) have en: "\<forall>t \<in> set joined. ends st t \<noteq> None" by simp
  show "\<exists>body joined.
            trace st' = trace st @ body @ map Thread_join joined @ [Close Listener, Close Listener]
          \<and> (\<forall>n. Accept n \<notin> set (dropWhile (\<lambda>e. e \<noteq> Is_set True)
                     (body @ map Thread_join joined @ [Close Listener, Close Listener])))
          \<and> Close Listener \<notin> set body
          \<and> (\<forall>t. Thread_start t \<in> set body \<longrightarrow> Is_alive t False \<in> set body \<or> t \<in> set joined)
          \<and> (\<forall>t \<in> set joined. ends st t \<noteq> None)"
    by (rule exI[of _ body], rule exI[of _ joined]) (use t b(2,3) th en in blast)
next
  assume h: "handle_exit ls = Some (c, ls')"
  let ?v = "is_set (event_set ls)"
  from h obtain st2 where j: "join_all (client_thread_list ls) ?v = Some st2"
    and c: "c = 0" and e: "ls' = listener_close (listener_close st2)"
    by (auto simp: handle_exit_eq split: option.splits)
  from join_all_Some[OF j] have st2: "st2 = ?v\<lparr>trace := trace ?v @ map Thread_join (client_thread_list ls)\<rparr>"
    and en: "\<forall>t \<in> set (client_thread_list ls). ends ?v t \<noteq> None"
    by simp_all
  from c show "c = 0" .
  from e st2 handle_exit_state(3)[of ls] show "stop_event ls'"
    by (simp add: listener_close_def)
  from e show "listener_closed ls'" by (simp add: listener_close_def)
  from e st2 handle_exit_state(1)[of ls]
  show "trace ls' = trace ls @ [Is_set True] @ map Thread_join (client_thread_list ls)
                         @ [Close Listener, Close Listener]"
    by (simp add: listener_close_def)
  from en handle_exit_state(2)[of ls]
  show "\<forall>t \<in> set (client_thread_list ls). ends ls t \<noteq> None" by simp
next
  assume "\<forall>t \<in> set (client_thread_list ls). ends ls t \<noteq> None"
  then have "\<forall>t \<in> set (client_thread_list ls). ends (is_set (event_set ls)) t \<noteq> None"
    by (simp add: handle_exit_state(2))
  from join_all_ended[OF this] show "\<exists>ls'. handle_exit ls = Some (0, ls')"
    by (simp add: handle_exit_eq)
next
  assume n: "\<exists>t \<in> set (client_thread_list ls). ends ls t = None"
  show "handle_exit ls = None"
  proof (cases "join_all (client_thread_list ls) (is_set (event_set ls))")
    case None
    then show ?thesis by (simp add: handle_exit_eq)
  next
    case (Some st2)
    from join_all_Some[OF Some] handle_exit_state(2)[of ls]
    have "\<forall>t \<in> set (client_thread_list ls). ends ls t \<noteq> None" by simp
    with n show ?thesis by blast
  qed
qed


lemmas listener_run_defs = listener_thread_def listener_rest_def listener_loop.simps
  socket_wait_readable.simps handle_exit_def listener_defs is_alive_def env_defs
  new_listener_def Let_def

theorem listener_shutdown_witness:
  "(\<exists>st'. listener_thread
            (new_listener [False, False, False, False, False, False, False, False, False, True]
               [[], [Listener], [Listener], [], [Listener], [], []]
               (\<lambda>t. if t = 0 then Some 1 else Some 5))
          = Some st'
       \<and> Accept 1 \<in> set (trace st') \<and> Is_alive 0 False \<in> set (trace st')
       \<and> Thread_join 1 \<in> set (trace st')
       \<and> stop_event st' \<and> listener_closed st'
       \<and> (\<exists>body joined.
            trace st' = body @ map Thread_join joined @ [Close Listener, Close Listener]
          \<and> (\<forall>n. Accept n \<notin> set (dropWhile (\<lambda>e. e \<noteq> Is_set True)
                     (body @ map Thread_join joined @ [Close Listener, Close Listener])))
          \<and> Close Listener \<notin> set body
          \<and> (\<forall>t. Thread_start t \<in> set body \<longrightarrow> Is_alive t False \<in> set body \<or> t \<in> set joined)))
   \<and> list_all (\<lambda>t. ends ((new_listener [] [[Listener]] (\<lambda>t. Some 1))
                            \<lparr>client_thread_list := [0, 1]\<rparr>) t \<noteq> None) [0, 1]
   \<and> (\<exists>ls'. handle_exit ((new_listener [] [[Listener]] (\<lambda>t. Some 1))
                            \<lparr>client_thread_list := [0, 1]\<rparr>) = Some (0, ls')
          \<and> stop_event ls' \<and> listener_closed ls'
          \<and> trace ls' = [Is_set True, Thread_join 0, Thread_join 1,
                          Close Listener, Close Listener])
   \<and> ends ((new_listener [] [[Listener]] (\<lambda>t. if t = 1 then None else Some 1))
              \<lparr>client_thread_list := [0, 1]\<rparr>) 1 = None
   \<and> handle_exit ((new_listener [] [[Listener]] (\<lambda>t. if t = 1 then None else Some 1))
                    \<lparr>client_thread_list := [0, 1]\<rparr>) = None"
proof -
  let ?L0 = "new_listener [False, False, False, False, False, False, False, False, False, True]
               [[], [Listener], [Listener], [], [Listener], [], []]
               (\<lambda>t. if t = 0 then Some 1 else Some 5)"
  let ?LS = "(new_listener [] [[Listener]] (\<lambda>t. Some 1))\<lparr>client_thread_list := [0, 1]\<rparr>"
  let ?LN = "(new_listener [] [[Listener]] (\<lambda>t. if t = 1 then None else Some 1))
               \<lparr>client_thread_list := [0, 1]\<rparr>"
  have "\<exists>st'. listener_thread ?L0 = Some st'
       \<and> Accept 1 \<in> set (trace st') \<and> Is_alive 0 False \<in> set (trace st')
       \<and> Thread_join 1 \<in> set (trace st')"
    by (simp add: listener_run_defs)
  then obtain st' where r: "listener_thread ?L0 = Some st'"
    and ev: "Accept 1 \<in> set (trace st')" "Is_alive 0 False \<in> set (trace st')"
      "Thread_join 1 \<in> set (trace st')"
    by blast
  have t0: "trace ?L0 = []" by (simp add: new_listener_def)
  from listener_shutdown[of ?L0 st' ?LS 0 ?LS] r
  obtain body joined where
    f: "stop_event st'" "listener_closed st'"
    and b: "trace st' = trace ?L0 @ body @ map Thread_join joined @ [Close Listener, Close Listener]"
      "\<forall>n. Accept n \<notin> set (dropWhile (\<lambda>e. e \<noteq> Is_set True)
                     (body @ map Thread_join joined @ [Close Listener, Close Listener]))"
      "Close Listener \<notin> set body"
      "\<forall>t. Thread_start t \<in> set body \<longrightarrow> Is_alive t False \<in> set body \<or> t \<in> set joined"
    by blast
  from b(1) t0 have b1: "trace st' = body @ map Thread_join joined @ [Close Listener, Close Listener]"
    by simp
  have p1: "\<exists>st'. listener_thread ?L0 = Some st'
       \<and> Accept 1 \<in> set (trace st') \<and> Is_alive 0 False \<in> set (trace st')
       \<and> Thread_join 1 \<in> set (trace st')
       \<and> stop_event st' \<and> listener_closed st'
       \<and> (\<exists>body joined.
            trace st' = body @ map Thread_join joined @ [Close Listener, Close Listener]
          \<and> (\<forall>n. Accept n \<notin> set (dropWhile (\<lambda>e. e \<noteq> Is_set True)
                     (body @ map Thread_join joined @ [Close Listener, Close Listener])))
          \<and> Close Listener \<notin> set body
          \<and> (\<forall>t. Thread_start t \<in> set body \<longrightarrow> Is_alive t False \<in> set body \<or> t \<in> set joined))"
    by (rule exI[of _ st']) (use r ev f b1 b(2,3,4) in blast)
  have h: "\<forall>t \<in> set (client_thread_list ?LS). ends ?LS t \<noteq> None"
    by (simp add: new_listener_def)
  then have p2: "list_all (\<lambda>t. ends ?LS t \<noteq> None) [0, 1]"
    by (simp add: new_listener_def)
  from listener_shutdown[of ?L0 st' ?LS 0 ?LS] h
  obtain ls' where e: "handle_exit ?LS = Some (0, ls')" by blast
  from listener_shutdown[of ?L0 st' ?LS 0 ls'] e
  have x: "stop_event ls'" "listener_closed ls'"
    "trace ls' = trace ?LS @ [Is_set True] @ map Thread_join (client_thread_list ?LS)
                         @ [Close Listener, Close Listener]"
    by blast+
  from x(3) have x3: "trace ls' = [Is_set True, Thread_join 0, Thread_join 1,
                          Close Listener, Close Listener]"
    by (simp add: new_listener_def)
  have p3: "\<exists>ls'. handle_exit ?LS = Some (0, ls')
          \<and> stop_event ls' \<and> listener_closed ls'
          \<and> trace ls' = [Is_set True, Thread_join 0, Thread_join 1,
                          Close Listener, Close Listener]"
    by (rule exI[of _ ls']) (use e x(1,2) x3 in blast)
  have p4: "ends ?LN 1 = None" by (simp add: new_listener_def)
  then have "\<exists>t \<in> set (client_thread_list ?LN). ends ?LN t = None"
    by (simp add: new_listener_def)
  with listener_shutdown[of ?L0 st' ?LN 0 ?LN]
  have p5: "handle_exit ?LN = None" by blast
  from p1 p2 p3 p4 p5 show ?thesis by blast
qed

text \<open>
  C8. \<open>stop_event\<close> is only ever set. \<open>stop_event.set()\<close> sets it, and on a set flag it
  changes nothing. No other operation of the program writes the flag: the looks at it
  (\<open>is_set\<close>, \<open>wait\<close>), taken together with the signal handler that may have run in
  between, and the runs of \<open>socket_wait_readable\<close>, of a session and of the listener
  keep a set flag set; the operations on sockets and threads leave it as it is.
\<close>

theorem stop_event_is_only_set:
  "stop_event (event_set w) \<and> event_set (event_set w) = event_set w
   \<and> (stop_event w \<longrightarrow> event_set w = w)
   \<and> (stop_event w \<longrightarrow> stop_event (deliver w) \<and> stop_event (is_set w) \<and> stop_event (event_wait w))
   \<and> (select_readable sl w = Some (rd, w1) \<longrightarrow> stop_event w1 = stop_event w)
   \<and> (stop_event w \<and> socket_wait_readable sl w = Some (wr, w2) \<longrightarrow> stop_event w2)
   \<and> stop_event (socket_write sk d st) = stop_event st
   \<and> stop_event (shutdown_wr sk st) = stop_event st
   \<and> stop_event (sock_close sk st) = stop_event st
   \<and> (recv sk n st = Some (d1, st1) \<longrightarrow> stop_event st1 = stop_event st)
   \<and> (stop_event st \<and> socket_read sk n st = Some (d2, st2) \<longrightarrow> stop_event st2)
   \<and> (drain sk st = Some st3 \<longrightarrow> stop_event st3 = stop_event st)
   \<and> (socket_close sk st = Some st4 \<longrightarrow> stop_event st4 = stop_event st)
   \<and> (stop_event st \<and> for_readable rs st = Some (f, st5) \<longrightarrow> stop_event st5)
   \<and> (stop_event st \<and> client_loop exit_flag st = Some (r, st6) \<longrightarrow> stop_event st6)
   \<and> (stop_event st \<and> client_thread st = Some (r', st7) \<longrightarrow> stop_event st7)
   \<and> stop_event (snd (accept ls)) = stop_event ls
   \<and> stop_event (thread_start t ls) = stop_event ls
   \<and> stop_event (prune ls) = stop_event ls
   \<and> stop_event (listener_close ls) = stop_event ls
   \<and> (join_all ts ls = Some ls1 \<longrightarrow> stop_event ls1 = stop_event ls)
   \<and> (stop_event ls \<and> listener_loop ls = Some ls2 \<longrightarrow> stop_event ls2)
   \<and> (stop_event ls \<and> listener_thread ls = Some ls3 \<longrightarrow> stop_event ls3)
   \<and> (handle_exit ls = Some (c, ls4) \<longrightarrow> stop_event ls4)"
proof -
  have a1: "stop_event (event_set w)" "event_set (event_set w) = event_set w"
    by (simp_all add: event_set_def)
  have a2: "stop_event w \<longrightarrow> event_set w = w" by (simp add: event_set_def)
  have a3: "stop_event w \<longrightarrow> stop_event (deliver w) \<and> stop_event (is_set w) \<and> stop_event (event_wait w)"
    by (simp add: env_defs Let_def split: list.splits)
  have a4: "select_readable sl w = Some (rd, w1) \<longrightarrow> stop_event w1 = stop_event w"
    by (auto dest: select_readable_Some(2))
  have a5: "stop_event w \<and> socket_wait_readable sl w = Some (wr, w2) \<longrightarrow> stop_event w2"
  proof
    assume h: "stop_event w \<and> socket_wait_readable sl w = Some (wr, w2)"
    then have s: "socket_wait_readable sl w = Some (wr, w2)" and p: "stop_event w" by simp_all
    show "stop_event w2"
      by (rule socket_wait_readable_invariant[where P = stop_event, OF s p])
         (auto dest: select_readable_Some(2) is_set_stop)
  qed
  have g1: "stop_event (socket_write k x v) = stop_event v"
    "stop_event (shutdown_wr k v) = stop_event v"
    "stop_event (sock_close k v) = stop_event v" for k x v
    by (simp_all add: sock_defs)
  have b1: "stop_event (socket_write sk d st) = stop_event st"
    "stop_event (shutdown_wr sk st) = stop_event st"
    "stop_event (sock_close sk st) = stop_event st"
    by (simp_all add: g1)
  have b2: "recv sk n st = Some (d1, st1) \<longrightarrow> stop_event st1 = stop_event st"
    by (auto dest: recv_stop)
  have b3: "stop_event st \<and> socket_read sk n st = Some (d2, st2) \<longrightarrow> stop_event st2"
    by (auto dest: socket_read_Some(3))
  have dr: "drain k v = Some v' \<Longrightarrow> stop_event v' = stop_event v" for k v v'
  proof (induction k v rule: drain.induct)
    case (1 k v)
    from "1.prems" obtain data v1 where r: "recv k 1024 v = Some (data, v1)"
      by (auto simp: drain.simps[of k v] split: option.splits)
    show ?case
    proof (cases "data = []")
      case True
      with "1.prems" r have "v' = v1" by (simp add: drain.simps[of k v])
      with recv_stop[OF r] show ?thesis by simp
    next
      case False
      with "1.prems" r have "drain k v1 = Some v'" by (simp add: drain.simps[of k v])
      from "1.IH"[OF r refl False this] recv_stop[OF r] show ?thesis by simp
    qed
  qed
  then have b4: "drain sk st = Some st3 \<longrightarrow> stop_event st3 = stop_event st" by blast
  have sc: "stop_event v' = stop_event v" if "socket_close k v = Some v'" for k v v'
  proof -
    from that obtain x where d: "drain k (shutdown_wr k v) = Some x" and e: "v' = sock_close k x"
      by (auto simp: socket_close_def split: option.splits)
    from dr[OF d] e show ?thesis by (simp add: g1)
  qed
  then have b5: "socket_close sk st = Some st4 \<longrightarrow> stop_event st4 = stop_event st" by blast
  have b6: "stop_event st \<and> for_readable rs st = Some (f, st5) \<longrightarrow> stop_event st5"
  proof
    assume h: "stop_event st \<and> for_readable rs st = Some (f, st5)"
    then have s: "for_readable rs st = Some (f, st5)" and p: "stop_event st" by simp_all
    show "stop_event st5"
      by (rule for_readable_invariant[where P = stop_event, OF s p])
         (auto dest: socket_read_Some(3) simp: socket_write_facts(2))
  qed
  have cl: "stop_event v \<Longrightarrow> client_loop e v = Some (x, v') \<Longrightarrow> stop_event v'" for v e x v'
    by (rule client_loop_invariant[where P = stop_event])
       (auto dest: socket_read_Some(3) select_readable_Some(2) is_set_stop
             simp: socket_write_facts(2))
  then have b7: "stop_event st \<and> client_loop exit_flag st = Some (r, st6) \<longrightarrow> stop_event st6"
    by blast
  have b8: "stop_event st \<and> client_thread st = Some (r', st7) \<longrightarrow> stop_event st7"
  proof
    assume h: "stop_event st \<and> client_thread st = Some (r', st7)"
    then obtain x v1 where l: "client_loop False st = Some (x, v1)"
      by (auto simp: client_thread_def split: option.splits)
    from cl[OF _ l] h have p: "stop_event v1" by simp
    show "stop_event st7"
    proof (cases x)
      case (Inl e)
      with h l p show ?thesis by (auto simp: client_thread_def g1)
    next
      case (Inr u)
      with h l obtain v2 v3 where c1: "socket_close Printer v1 = Some v2"
        and c2: "socket_close Client (sock_close Printer v2) = Some v3"
        and e: "st7 = sock_close Client v3"
        by (auto simp: client_thread_def split: option.splits)
      from sc[OF c1] sc[OF c2] p e show ?thesis by (simp add: g1)
    qed
  qed
  have c1: "stop_event (snd (accept ls)) = stop_event ls"
    "stop_event (thread_start t ls) = stop_event ls"
    "stop_event (prune ls) = stop_event ls"
    "stop_event (listener_close ls) = stop_event ls"
    by (simp_all add: listener_defs)
  have c2: "join_all ts ls = Some ls1 \<longrightarrow> stop_event ls1 = stop_event ls"
    by (auto dest: join_all_Some)
  have c3: "stop_event ls \<and> listener_loop ls = Some ls2 \<longrightarrow> stop_event ls2"
    by (auto dest: listener_loop_stop)
  have c4: "stop_event ls \<and> listener_thread ls = Some ls3 \<longrightarrow> stop_event ls3"
    by (auto simp: listener_thread_def dest: listener_rest_shape)
  have c5: "handle_exit ls = Some (c, ls4) \<longrightarrow> stop_event ls4"
    by (auto simp: handle_exit_def split: option.splits dest: listener_rest_shape)
  from a1 a2 a3 a4 a5 b1 b2 b3 b4 b5 b6 b7 b8 c1 c2 c3 c4 c5 show ?thesis by blast
qed


theorem stop_event_is_only_set_witness:
  "stop_event 
      (event_set (new_session [] [[Client]] [''x'', []] [[]]))
   \<and> event_set 
      (event_set (new_session [] [[Client]] [''x'', []] [[]])) = 
      (event_set (new_session [] [[Client]] [''x'', []] [[]]))
   \<and> stop_event (is_set 
      (event_set (new_session [] [[Client]] [''x'', []] [[]])))
   \<and> (\<exists>rd w1. select_readable [Client, Printer] 
      (event_set (new_session [] [[Client]] [''x'', []] [[]])) = Some (rd, w1) \<and> stop_event w1)
   \<and> (\<exists>wr w2. socket_wait_readable [Client, Printer] 
      (event_set (new_session [] [[Client]] [''x'', []] [[]])) = Some (wr, w2) \<and> stop_event w2)
   \<and> (\<exists>d1 st1. recv Client 5 
      (event_set (new_session [] [[Client]] [''x'', []] [[]])) = Some (d1, st1) \<and> stop_event st1)
   \<and> (\<exists>d2 st2. socket_read Client 5 
      (event_set (new_session [] [[Client]] [''x'', []] [[]])) = Some (d2, st2) \<and> stop_event st2)
   \<and> (\<exists>st3. drain Client 
      (event_set (new_session [] [[Client]] [''x'', []] [[]])) = Some st3 \<and> stop_event st3)
   \<and> (\<exists>st4. socket_close Client 
      (event_set (new_session [] [[Client]] [''x'', []] [[]])) = Some st4 \<and> stop_event st4)
   \<and> (\<exists>f st5. for_readable [Client] 
      (event_set (new_session [] [[Client]] [''x'', []] [[]])) = Some (f, st5) \<and> stop_event st5)
   \<and> (\<exists>r st6. client_loop False 
      (event_set (new_session [] [[Client]] [''x'', []] [[]])) = Some (r, st6) \<and> stop_event st6)
   \<and> (\<exists>r st7. client_thread 
      (event_set (new_session [] [[Client]] [''x'', []] [[]])) = Some (r, st7) \<and> stop_event st7)
   \<and> (\<exists>ls1. join_all [0] 
      (event_set ((new_listener [] [[Listener]] (\<lambda>t. Some 1))\<lparr>client_thread_list := [0]\<rparr>)) = Some ls1 \<and> stop_event ls1)
   \<and> (\<exists>ls2. listener_loop 
      (event_set ((new_listener [] [[Listener]] (\<lambda>t. Some 1))\<lparr>client_thread_list := [0]\<rparr>)) = Some ls2 \<and> stop_event ls2)
   \<and> (\<exists>ls3. listener_thread 
      (event_set ((new_listener [] [[Listener]] (\<lambda>t. Some 1))\<lparr>client_thread_list := [0]\<rparr>)) = Some ls3 \<and> stop_event ls3)
   \<and> (\<exists>c ls4. handle_exit 
      (event_set ((new_listener [] [[Listener]] (\<lambda>t. Some 1))\<lparr>client_thread_list := [0]\<rparr>)) = Some (c, ls4) \<and> stop_event ls4)"
proof -
  define S where "S = event_set (new_session [] [[Client]] [''x'', []] [[]])"
  define L where "L = event_set ((new_listener [] [[Listener]] (\<lambda>t. Some 1))\<lparr>client_thread_list := [0]\<rparr>)"
  have s: "stop_event S" by (simp add: S_def event_set_def)
  have l: "stop_event L" by (simp add: L_def event_set_def)
  have "\<exists>rd w1. select_readable [Client, Printer] S = Some (rd, w1)"
    by (simp add: S_def run_defs)
  then obtain rd w1 where e1: "select_readable [Client, Printer] S = Some (rd, w1)" by blast
  have "\<exists>wr w2. socket_wait_readable [Client, Printer] S = Some (wr, w2)"
    by (simp add: S_def run_defs)
  then obtain wr w2 where e2: "socket_wait_readable [Client, Printer] S = Some (wr, w2)" by blast
  have "\<exists>d1 st1. recv Client 5 S = Some (d1, st1)"
    by (simp add: S_def run_defs)
  then obtain d1 st1 where e3: "recv Client 5 S = Some (d1, st1)" by blast
  have "\<exists>d2 st2. socket_read Client 5 S = Some (d2, st2)"
    by (simp add: S_def run_defs)
  then obtain d2 st2 where e4: "socket_read Client 5 S = Some (d2, st2)" by blast
  have "\<exists>st3. drain Client S = Some st3"
    by (simp add: S_def run_defs)
  then obtain st3 where e5: "drain Client S = Some st3" by blast
  have "\<exists>st4. socket_close Client S = Some st4"
    by (simp add: S_def run_defs)
  then obtain st4 where e6: "socket_close Client S = Some st4" by blast
  have "\<exists>st5. for_readable [Client] S = Some (False, st5)"
    by (simp add: S_def run_defs)
  then obtain st5 where e7: "for_readable [Client] S = Some (False, st5)" by blast
  have "\<exists>st6. client_loop False S = Some (Inr (), st6)"
    by (simp add: S_def run_defs)
  then obtain st6 where e8: "client_loop False S = Some (Inr (), st6)" by blast
  have "\<exists>st7. client_thread S = Some (Inr (), st7)"
    by (simp add: S_def run_defs)
  then obtain st7 where e9: "client_thread S = Some (Inr (), st7)" by blast
  have "\<exists>ls1. join_all [0] L = Some ls1"
    by (simp add: L_def listener_run_defs)
  then obtain ls1 where f1: "join_all [0] L = Some ls1" by blast
  have "\<exists>ls2. listener_loop L = Some ls2"
    by (simp add: L_def listener_run_defs)
  then obtain ls2 where f2: "listener_loop L = Some ls2" by blast
  have "\<exists>ls3. listener_thread L = Some ls3"
    by (simp add: L_def listener_run_defs)
  then obtain ls3 where f3: "listener_thread L = Some ls3" by blast
  have "\<exists>ls4. handle_exit L = Some (0, ls4)"
    by (simp add: L_def listener_run_defs)
  then obtain ls4 where f4: "handle_exit L = Some (0, ls4)" by blast
  note t = stop_event_is_only_set[where w = S and sl = "[Client, Printer]" and rd = rd
      and ?w1.0 = w1 and wr = wr and ?w2.0 = w2 and sk = Client and st = S and n = 5
      and ?d1.0 = d1 and ?st1.0 = st1 and ?d2.0 = d2 and ?st2.0 = st2 and ?st3.0 = st3
      and ?st4.0 = st4 and rs = "[Client]" and f = False and ?st5.0 = st5
      and exit_flag = False and r = "Inr ()" and ?st6.0 = st6 and r' = "Inr ()"
      and ?st7.0 = st7 and ls = L and ts = "[0]"
      and ?ls1.0 = ls1 and ?ls2.0 = ls2 and ?ls3.0 = ls3 and c = 0 and ?ls4.0 = ls4]
  note t3 = t[THEN conjunct2, THEN conjunct2, THEN conjunct1]
  note t4 = t[THEN conjunct2, THEN conjunct2, THEN conjunct2, THEN conjunct1]
  note t5 = t[THEN conjunct2, THEN conjunct2, THEN conjunct2, THEN conjunct2, THEN conjunct1]
  note t6 = t[THEN conjunct2, THEN conjunct2, THEN conjunct2, THEN conjunct2, THEN conjunct2, THEN conjunct1]
  note t10 = t[THEN conjunct2, THEN conjunct2, THEN conjunct2, THEN conjunct2, THEN conjunct2, THEN conjunct2, THEN conjunct2, THEN conjunct2, THEN conjunct2, THEN conjunct1]
  note t11 = t[THEN conjunct2, THEN conjunct2, THEN conjunct2, THEN conjunct2, THEN conjunct2, THEN conjunct2, THEN conjunct2, THEN conjunct2, THEN conjunct2, THEN conjunct2, THEN conjunct1]
  note t12 = t[THEN conjunct2, THEN conjunct2, THEN conjunct2, THEN conjunct2, THEN conjunct2, THEN conjunct2, THEN conjunct2, THEN conjunct2, THEN conjunct2, THEN conjunct2, THEN conjunct2, THEN conjunct1]
  note t13 = t[THEN conjunct2, THEN conjunct2, THEN conjunct2, THEN conjunct2, THEN conjunct2, THEN conjunct2, THEN conjunct2, THEN conjunct2, THEN conjunct2, THEN conjunct2, THEN conjunct2, THEN conjunct2, THEN conjunct1]
  note t14 = t[THEN conjunct2, THEN conjunct2, THEN conjunct2, THEN conjunct2, THEN conjunct2, THEN conjunct2, THEN conjunct2, THEN conjunct2, THEN conjunct2, THEN conjunct2, THEN conjunct2, THEN conjunct2, THEN conjunct2, THEN conjunct1]
  note t15 = t[THEN conjunct2, THEN conjunct2, THEN conjunct2, THEN conjunct2, THEN conjunct2, THEN conjunct2, THEN conjunct2, THEN conjunct2, THEN conjunct2, THEN conjunct2, THEN conjunct2, THEN conjunct2, THEN conjunct2, THEN conjunct2, THEN conjunct1]
  note t16 = t[THEN conjunct2, THEN conjunct2, THEN conjunct2, THEN conjunct2, THEN conjunct2, THEN conjunct2, THEN conjunct2, THEN conjunct2, THEN conjunct2, THEN conjunct2, THEN conjunct2, THEN conjunct2, THEN conjunct2, THEN conjunct2, THEN conjunct2, THEN conjunct1]
  note t21 = t[THEN conjunct2, THEN conjunct2, THEN conjunct2, THEN conjunct2, THEN conjunct2, THEN conjunct2, THEN conjunct2, THEN conjunct2, THEN conjunct2, THEN conjunct2, THEN conjunct2, THEN conjunct2, THEN conjunct2, THEN conjunct2, THEN conjunct2, THEN conjunct2, THEN conjunct2, THEN conjunct2, THEN conjunct2, THEN conjunct2, THEN conjunct1]
  note t22 = t[THEN conjunct2, THEN conjunct2, THEN conjunct2, THEN conjunct2, THEN conjunct2, THEN conjunct2, THEN conjunct2, THEN conjunct2, THEN conjunct2, THEN conjunct2, THEN conjunct2, THEN conjunct2, THEN conjunct2, THEN conjunct2, THEN conjunct2, THEN conjunct2, THEN conjunct2, THEN conjunct2, THEN conjunct2, THEN conjunct2, THEN conjunct2, THEN conjunct1]
  note t23 = t[THEN conjunct2, THEN conjunct2, THEN conjunct2, THEN conjunct2, THEN conjunct2, THEN conjunct2, THEN conjunct2, THEN conjunct2, THEN conjunct2, THEN conjunct2, THEN conjunct2, THEN conjunct2, THEN conjunct2, THEN conjunct2, THEN conjunct2, THEN conjunct2, THEN conjunct2, THEN conjunct2, THEN conjunct2, THEN conjunct2, THEN conjunct2, THEN conjunct2, THEN conjunct1]
  note t24 = t[THEN conjunct2, THEN conjunct2, THEN conjunct2, THEN conjunct2, THEN conjunct2, THEN conjunct2, THEN conjunct2, THEN conjunct2, THEN conjunct2, THEN conjunct2, THEN conjunct2, THEN conjunct2, THEN conjunct2, THEN conjunct2, THEN conjunct2, THEN conjunct2, THEN conjunct2, THEN conjunct2, THEN conjunct2, THEN conjunct2, THEN conjunct2, THEN conjunct2, THEN conjunct2]
  from t3 s have p1: "event_set S = S" by simp
  from t4 s have p2: "stop_event (is_set S)" by simp
  from t5 e1 s have q1: "stop_event w1" by simp
  from t6 e2 s have q2: "stop_event w2" by simp
  from t10 e3 s have q3: "stop_event st1" by simp
  from t11 e4 s have q4: "stop_event st2" by simp
  from t12 e5 s have q5: "stop_event st3" by simp
  from t13 e6 s have q6: "stop_event st4" by simp
  from t14 e7 s have q7: "stop_event st5" by simp
  from t15 e8 s have q8: "stop_event st6" by simp
  from t16 e9 s have q9: "stop_event st7" by simp
  from t21 f1 l have g1: "stop_event ls1" by simp
  from t22 f2 l have g2: "stop_event ls2" by simp
  from t23 f3 l have g3: "stop_event ls3" by simp
  from t24 f4 have g4: "stop_event ls4" by simp
  have c1: "\<exists>rd w1. select_readable [Client, Printer] S = Some (rd, w1) \<and> stop_event w1"
    using e1 q1 by blast
  have c2: "\<exists>wr w2. socket_wait_readable [Client, Printer] S = Some (wr, w2) \<and> stop_event w2"
    using e2 q2 by blast
  have c3: "\<exists>d1 st1. recv Client 5 S = Some (d1, st1) \<and> stop_event st1"
    using e3 q3 by blast
  have c4: "\<exists>d2 st2. socket_read Client 5 S = Some (d2, st2) \<and> stop_event st2"
    using e4 q4 by blast
  have c5: "\<exists>st3. drain Client S = Some st3 \<and> stop_event st3"
    using e5 q5 by blast
  have c6: "\<exists>st4. socket_close Client S = Some st4 \<and> stop_event st4"
    using e6 q6 by blast
  have c7: "\<exists>f st5. for_readable [Client] S = Some (f, st5) \<and> stop_event st5"
    using e7 q7 by blast
  have c8: "\<exists>r st6. client_loop False S = Some (r, st6) \<and> stop_event st6"
    using e8 q8 by blast
  have c9: "\<exists>r st7. client_thread S = Some (r, st7) \<and> stop_event st7"
    using e9 q9 by blast
  have d1: "\<exists>ls1. join_all [0] L = Some ls1 \<and> stop_event ls1"
    using f1 g1 by blast
  have d2: "\<exists>ls2. listener_loop L = Some ls2 \<and> stop_event ls2"
    using f2 g2 by blast
  have d3: "\<exists>ls3. listener_thread L = Some ls3 \<and> stop_event ls3"
    using f3 g3 by blast
  have d4: "\<exists>c ls4. handle_exit L = Some (c, ls4) \<and> stop_event ls4"
    using f4 g4 by blast
  have "stop_event S
   \<and> event_set S = S
   \<and> stop_event (is_set S)
   \<and> (\<exists>rd w1. select_readable [Client, Printer] S = Some (rd, w1) \<and> stop_event w1)
   \<and> (\<exists>wr w2. socket_wait_readable [Client, Printer] S = Some (wr, w2) \<and> stop_event w2)
   \<and> (\<exists>d1 st1. recv Client 5 S = Some (d1, st1) \<and> stop_event st1)
   \<and> (\<exists>d2 st2. socket_read Client 5 S = Some (d2, st2) \<and> stop_event st2)
   \<and> (\<exists>st3. drain Client S = Some st3 \<and> stop_event st3)
   \<and> (\<exists>st4. socket_close Client S = Some st4 \<and> stop_event st4)
   \<and> (\<exists>f st5. for_readable [Client] S = Some (f, st5) \<and> stop_event st5)
   \<and> (\<exists>r st6. client_loop False S = Some (r, st6) \<and> stop_event st6)
   \<and> (\<exists>r st7. client_thread S = Some (r, st7) \<and> stop_event st7)
   \<and> (\<exists>ls1. join_all [0] L = Some ls1 \<and> stop_event ls1)
   \<and> (\<exists>ls2. listener_loop L = Some ls2 \<and> stop_event ls2)
   \<and> (\<exists>ls3. listener_thread L = Some ls3 \<and> stop_event ls3)
   \<and> (\<exists>c ls4. handle_exit L = Some (c, ls4) \<and> stop_event ls4)"
    by (intro conjI) (rule s p1 p2 c1 c2 c3 c4 c5 c6 c7 c8 c9 d1 d2 d3 d4)+
  then show ?thesis unfolding S_def L_def .
qed

end
